theory Spec2Isabelle
  imports Main
begin

unbundle bit_operations_syntax

section \<open>JavaScript values, strings and errors\<close>

text \<open>
  JavaScript strings are modelled as \<^typ>\<open>string\<close>: one \<^typ>\<open>char\<close> per code unit,
  restricted to code units below 256. A \<open>bigint\<close> is an \<^typ>\<open>int\<close>; a \<open>number\<close> that
  holds a small non-negative integer (an octet, a hextet, an index, a length) is a
  \<^typ>\<open>nat\<close>, and an \<^typ>\<open>int\<close> where the source subtracts and the sign can matter.
  Every \<open>throw\<close> of the source is the left injection of a sum type; a \<open>while\<close> loop
  that the source does not bound is a \<open>partial_function\<close> into \<open>option\<close>, whose value
  \<open>None\<close> (no result) is carried on as \<open>NonTermination\<close>.
\<close>

datatype error =
    InvalidCIDR               \<comment> \<open>\<open>new Error("Invalid CIDR")\<close>\<close>
  | InvalidHexDigit           \<comment> \<open>\<open>new Error("Invalid hex digit")\<close>\<close>
  | InternalPatternSplitError \<comment> \<open>\<open>new Error("Internal pattern split error")\<close>\<close>
  | RegExpSyntaxError         \<comment> \<open>the \<open>SyntaxError\<close> of \<open>new RegExp\<close>\<close>
  | NonTermination            \<comment> \<open>a loop of the source that never exits\<close>

datatype js_value =
    JSString string
  | JSNumber int
  | JSBoolean bool
  | JSNull
  | JSUndefined
  | JSOther

datatype family = IPv4 | IPv6

record ParsedCidr =
  family :: family
  address :: int
  prefix :: int

definition IPV4_BITS :: int where "IPV4_BITS = 32"
definition IPV6_BITS :: int where "IPV6_BITS = 128"

definition BACKSLASH :: char where "BACKSLASH = CHR 0x5C"

definition IPV4_ANY_OCTET :: string where
  "IPV4_ANY_OCTET = ''(?:0|[1-9][0-9]?|1[0-9]{2}|2[0-4][0-9]|25[0-5])''"

definition IPV6_ANY_HEXTET :: string where
  "IPV6_ANY_HEXTET = ''[0-9a-f]{4}''"

definition HEX_DIGITS :: string where
  "HEX_DIGITS = ''0123456789abcdef''"

text \<open>\<open>Array.prototype.join\<close> on an array of strings.\<close>

fun join :: "string \<Rightarrow> string list \<Rightarrow> string" where
  "join sep [] = []"
| "join sep [x] = x"
| "join sep (x # y # ys) = x @ sep @ join sep (y # ys)"

text \<open>\<open>String(value)\<close> for a non-negative integer number: its decimal digits.\<close>

definition digit_char :: "nat \<Rightarrow> char" where
  "digit_char d = char_of (48 + d)"

fun String_of_nat :: "nat \<Rightarrow> string" where
  "String_of_nat n =
     (if n < 10 then [digit_char n] else String_of_nat (n div 10) @ [digit_char (n mod 10)])"

declare String_of_nat.simps [simp del]

text \<open>
  \<open>HEX_DIGITS[i]\<close> inside a template literal: the character at \<open>i\<close>, and the text
  \<open>undefined\<close> when \<open>i\<close> is out of range.
\<close>

definition hex_digit_at :: "nat \<Rightarrow> string" where
  "hex_digit_at i = (if i < length HEX_DIGITS then [HEX_DIGITS ! i] else ''undefined'')"

text \<open>\<open>n.toString(16)\<close> and \<open>padStart(width, "0")\<close>.\<close>

fun toString16 :: "nat \<Rightarrow> string" where
  "toString16 n =
     (if n < 16 then [HEX_DIGITS ! n] else toString16 (n div 16) @ [HEX_DIGITS ! (n mod 16)])"

declare toString16.simps [simp del]

definition padStart :: "nat \<Rightarrow> char \<Rightarrow> string \<Rightarrow> string" where
  "padStart width c s = replicate (width - length s) c @ s"

section \<open>The range normalizer\<close>

text \<open>
  \<open>x << n\<close> on bigints: a left shift, and a right shift by \<open>-n\<close> when \<open>n\<close> is negative.
\<close>

definition bigint_shl :: "int \<Rightarrow> int \<Rightarrow> int" where
  "bigint_shl x n = (if 0 \<le> n then push_bit (nat n) x else drop_bit (nat (- n)) x)"

definition normalizeRange :: "int \<Rightarrow> int \<Rightarrow> int \<Rightarrow> int \<times> int" where
  "normalizeRange value bits pfx =
     (let hostBits = bits - pfx;
          prefixMask = (if pfx = 0 then 0 else bigint_shl (bigint_shl 1 pfx - 1) hostBits);
          hostMask = (if hostBits = 0 then 0 else bigint_shl 1 hostBits - 1);
          start = value AND prefixMask;
          endv = start OR hostMask
      in (start, endv))"

definition ipv4ToOctets :: "int \<Rightarrow> nat list" where
  "ipv4ToOctets value =
     [nat (drop_bit 24 value AND 0xff),
      nat (drop_bit 16 value AND 0xff),
      nat (drop_bit 8 value AND 0xff),
      nat (value AND 0xff)]"

definition ipv6ToHextets :: "int \<Rightarrow> nat list" where
  "ipv6ToHextets value =
     map (\<lambda>i. nat (drop_bit ((7 - i) * 16) value AND 0xffff)) [0..<8]"

section \<open>The digit-range compiler\<close>

text \<open>
  \<open>[...new Set(parts)]\<close>: a set keeps its elements in the order of their first
  insertion.
\<close>

definition set_add :: "'a \<Rightarrow> 'a list \<Rightarrow> 'a list" where
  "set_add x acc = (if x \<in> set acc then acc else acc @ [x])"

definition uniquePatterns :: "'a list \<Rightarrow> 'a list" where
  "uniquePatterns parts = fold set_add parts []"

definition orPattern :: "string list \<Rightarrow> string" where
  "orPattern parts =
     (let unique = uniquePatterns parts
      in if length unique = 0 then ''(?!)''
         else if length unique = 1 then unique ! 0
         else ''(?:'' @ join ''|'' unique @ '')'')"

definition octetValuePattern :: "nat \<Rightarrow> string" where
  "octetValuePattern value = String_of_nat value"

definition octetRangePattern :: "nat \<Rightarrow> nat \<Rightarrow> string" where
  "octetRangePattern start endv =
     (if start = 0 \<and> endv = 255 then IPV4_ANY_OCTET
      else orPattern (map octetValuePattern [start..<Suc endv]))"

definition hexWildcard :: "nat \<Rightarrow> string" where
  "hexWildcard len =
     (if len \<le> 0 then ''''
      else if len = 1 then ''[0-9a-f]''
      else ''[0-9a-f]{'' @ String_of_nat len @ ''}'')"

text \<open>
  The \<open>while (current <= end)\<close> loop of \<open>hexDigitRange\<close>. Both branches push the same
  text and differ in the bound of the segment (9 or 15). From \<open>current = 16\<close> on the
  loop sets \<open>current\<close> back to 16 and does not exit, so it is a partial function.
\<close>

partial_function (option) hexDigitLoop :: "nat \<Rightarrow> nat \<Rightarrow> string list \<Rightarrow> string list option" where
  "hexDigitLoop current endv parts =
     (if current \<le> endv then
        (if current \<le> 9 then
           (let segmentEnd = min endv 9
            in hexDigitLoop (segmentEnd + 1) endv
                 (parts @ [if current = segmentEnd then hex_digit_at current
                           else hex_digit_at current @ ''-'' @ hex_digit_at segmentEnd]))
         else
           (let segmentEnd = min endv 15
            in hexDigitLoop (segmentEnd + 1) endv
                 (parts @ [if current = segmentEnd then hex_digit_at current
                           else hex_digit_at current @ ''-'' @ hex_digit_at segmentEnd])))
      else Some parts)"

definition hexDigitRange :: "nat \<Rightarrow> nat \<Rightarrow> string option" where
  "hexDigitRange start endv =
     (if start = endv then Some (hex_digit_at start)
      else map_option (\<lambda>parts. ''['' @ join '''' parts @ '']'') (hexDigitLoop start endv []))"

text \<open>\<open>HEX_DIGITS.indexOf(char)\<close> for a one-character string, and the throw on \<open>-1\<close>.\<close>

fun index_of :: "char \<Rightarrow> string \<Rightarrow> nat option" where
  "index_of c [] = None"
| "index_of c (x # xs) = (if x = c then Some 0 else map_option Suc (index_of c xs))"

definition hexValue :: "char \<Rightarrow> error + nat" where
  "hexValue c = (case index_of c HEX_DIGITS of None \<Rightarrow> Inl InvalidHexDigit | Some v \<Rightarrow> Inr v)"

section \<open>The address parser\<close>

subsection \<open>String operations of the JavaScript library\<close>

text \<open>\<open>String.prototype.trim\<close>: white space and line terminators below code unit 256.\<close>

definition js_whitespace :: "char \<Rightarrow> bool" where
  "js_whitespace c = (of_char c \<in> {9, 10, 11, 12, 13, 32, 160 :: nat})"

definition js_trim :: "string \<Rightarrow> string" where
  "js_trim s = rev (dropWhile js_whitespace (rev (dropWhile js_whitespace s)))"

text \<open>\<open>String.prototype.toLowerCase\<close> on code units below 256.\<close>

definition js_lower_char :: "char \<Rightarrow> char" where
  "js_lower_char c =
     (let n = of_char c :: nat
      in if (65 \<le> n \<and> n \<le> 90) \<or> (192 \<le> n \<and> n \<le> 222 \<and> n \<noteq> 215)
         then char_of (n + 32) else c)"

definition js_toLowerCase :: "string \<Rightarrow> string" where
  "js_toLowerCase s = map js_lower_char s"

text \<open>\<open>s.startsWith(sub)\<close> and \<open>s.includes(sub)\<close>.\<close>

definition js_startsWith :: "string \<Rightarrow> string \<Rightarrow> bool" where
  "js_startsWith sub s = (take (length sub) s = sub)"

fun js_includes :: "string \<Rightarrow> string \<Rightarrow> bool" where
  "js_includes sub [] = (sub = [])"
| "js_includes sub (c # cs) = (js_startsWith sub (c # cs) \<or> js_includes sub cs)"

text \<open>
  \<open>s.split(sep)\<close> for a string separator: the pieces between the occurrences of \<open>sep\<close>,
  found from left to right without overlap; the empty separator splits into code units.
\<close>

function split_from :: "string \<Rightarrow> string \<Rightarrow> string \<Rightarrow> string list" where
  "split_from sep cur [] = [cur]"
| "split_from sep cur (c # cs) =
     (if sep \<noteq> [] \<and> js_startsWith sep (c # cs)
      then cur # split_from sep [] (drop (length sep) (c # cs))
      else split_from sep (cur @ [c]) cs)"
  by pat_completeness auto
termination
  by (relation "measure (\<lambda>(sep, cur, s). length s)") (auto simp: js_startsWith_def)

definition js_split :: "string \<Rightarrow> string \<Rightarrow> string list" where
  "js_split sep s = (if sep = [] then map (\<lambda>c. [c]) s else split_from sep [] s)"

text \<open>\<open>(s.match(/::/g) ?? []).length\<close>: the matches of a global regex do not overlap.\<close>

fun count_double_colon :: "string \<Rightarrow> nat" where
  "count_double_colon (a # b # cs) =
     (if a = CHR '':'' \<and> b = CHR '':'' then Suc (count_double_colon cs)
      else count_double_colon (b # cs))"
| "count_double_colon cs = 0"

text \<open>\<open>s.lastIndexOf(":")\<close>: \<open>None\<close> stands for \<open>-1\<close>.\<close>

fun lastIndexOf :: "char \<Rightarrow> string \<Rightarrow> nat option" where
  "lastIndexOf c [] = None"
| "lastIndexOf c (x # xs) =
     (case lastIndexOf c xs of
        Some i \<Rightarrow> Some (Suc i)
      | None \<Rightarrow> if x = c then Some 0 else None)"

text \<open>The regular expressions \<open>/^\d+$/\<close> and \<open>/^[0-9a-f]{1,4}$/\<close> of the parser.\<close>

definition charCode :: "char \<Rightarrow> nat" where
  "charCode c = of_char c"

definition is_digit :: "char \<Rightarrow> bool" where
  "is_digit c = (charCode CHR ''0'' \<le> charCode c \<and> charCode c \<le> charCode CHR ''9'')"

definition is_lower_hex :: "char \<Rightarrow> bool" where
  "is_lower_hex c =
     (is_digit c \<or> (charCode CHR ''a'' \<le> charCode c \<and> charCode c \<le> charCode CHR ''f''))"

definition test_digits :: "string \<Rightarrow> bool" where
  "test_digits s = (s \<noteq> [] \<and> list_all is_digit s)"

definition test_hextet :: "string \<Rightarrow> bool" where
  "test_hextet s = (1 \<le> length s \<and> length s \<le> 4 \<and> list_all is_lower_hex s)"

text \<open>
  \<open>Number.parseInt(s, 10)\<close> on a string of decimal digits and \<open>Number.parseInt(s, 16)\<close>
  on a string of lowercase hexadecimal digits (every caller tests the string first).
  The model keeps the exact integer; the number that JavaScript returns is that
  integer rounded to a double, which is \<open>Infinity\<close> from \<open>2^1024 - 2^970\<close> on and is
  otherwise an integer that exceeds 128 whenever the exact one does.
\<close>

definition digit_value :: "char \<Rightarrow> nat" where
  "digit_value c = charCode c - 48"

definition Number_parseInt10 :: "string \<Rightarrow> nat" where
  "Number_parseInt10 s = foldl (\<lambda>v c. v * 10 + digit_value c) 0 s"

definition Number_isFinite :: "nat \<Rightarrow> bool" where
  "Number_isFinite n = (n < 2 ^ 1024 - 2 ^ 970)"

definition hex_value :: "char \<Rightarrow> nat" where
  "hex_value c = (case index_of c HEX_DIGITS of Some v \<Rightarrow> v | None \<Rightarrow> 0)"

definition Number_parseInt16 :: "string \<Rightarrow> nat" where
  "Number_parseInt16 s = foldl (\<lambda>v c. v * 16 + hex_value c) 0 s"

subsection \<open>IPv4 addresses\<close>

text \<open>\<open>parseByte\<close>: the loop over the code units, with \<open>value\<close> as accumulator.\<close>

fun parseByte_loop :: "nat \<Rightarrow> string \<Rightarrow> nat option" where
  "parseByte_loop v [] = Some v"
| "parseByte_loop v (c # cs) =
     (let code = charCode c
      in if code < 48 \<or> code > 57 then None
         else (let v' = v * 10 + (code - 48)
               in if v' > 255 then None else parseByte_loop v' cs))"

definition parseByte :: "string \<Rightarrow> nat option" where
  "parseByte part = (if length part = 0 then None else parseByte_loop 0 part)"

fun parseIPv4_loop :: "int \<Rightarrow> string list \<Rightarrow> int option" where
  "parseIPv4_loop v [] = Some v"
| "parseIPv4_loop v (part # parts) =
     (if \<not> test_digits part then None
      else (case parseByte part of
              None \<Rightarrow> None
            | Some octet \<Rightarrow> parseIPv4_loop (push_bit 8 v OR int octet) parts))"

definition parseIPv4 :: "string \<Rightarrow> int option" where
  "parseIPv4 text =
     (let parts = js_split ''.'' text
      in if length parts \<noteq> 4 then None else parseIPv4_loop 0 parts)"

subsection \<open>IPv6 addresses\<close>

definition expandEmbeddedIPv4 :: "string \<Rightarrow> string" where
  "expandEmbeddedIPv4 text =
     (if \<not> js_includes ''.'' text then text
      else (case lastIndexOf CHR '':'' text of
              None \<Rightarrow> ''''
            | Some lastColon \<Rightarrow>
                (let ipv4Part = drop (lastColon + 1) text
                 in if ipv4Part = [] \<or> js_includes '':'' ipv4Part then ''''
                    else (case parseIPv4 ipv4Part of
                            None \<Rightarrow> ''''
                          | Some ipv4 \<Rightarrow>
                              (let high = toString16 (nat (drop_bit 16 ipv4 AND 0xffff));
                                   low = toString16 (nat (ipv4 AND 0xffff))
                               in take lastColon text @ '':'' @ high @ '':'' @ low)))))"

fun parseHextetParts :: "string list \<Rightarrow> nat list option" where
  "parseHextetParts [] = Some []"
| "parseHextetParts (part # parts) =
     (if \<not> test_hextet part then None
      else map_option (\<lambda>out. Number_parseInt16 part # out) (parseHextetParts parts))"

definition hextets_value :: "nat list \<Rightarrow> int" where
  "hextets_value hextets = foldl (\<lambda>v hextet. push_bit 16 v OR int hextet) 0 hextets"

definition parseIPv6 :: "string \<Rightarrow> int option" where
  "parseIPv6 text =
     (let normalized = expandEmbeddedIPv4 (js_toLowerCase text)
      in if length normalized = 0 then None
         else if count_double_colon normalized > 1 then None
         else
           (let hasCompression = js_includes ''::'' normalized;
                pieces = (if hasCompression then js_split ''::'' normalized else [normalized, '''']);
                leftRaw = pieces ! 0;
                rightRaw = (if length pieces > 1 then pieces ! 1 else '''');
                leftParts = (if length leftRaw = 0 then [] else js_split '':'' leftRaw);
                rightParts = (if hasCompression \<and> length rightRaw > 0
                              then js_split '':'' rightRaw else [])
            in if list_ex (\<lambda>part. length part = 0) leftParts
                  \<or> list_ex (\<lambda>part. length part = 0) rightParts then None
               else
                 (case (parseHextetParts leftParts, parseHextetParts rightParts) of
                    (Some parsedLeft, Some parsedRight) \<Rightarrow>
                      (if hasCompression then
                         (let fixedCount = length parsedLeft + length parsedRight
                          in if fixedCount \<ge> 8 then None
                             else (let missing = 8 - fixedCount;
                                       hextets = parsedLeft @ replicate missing 0 @ parsedRight
                                   in if length hextets \<noteq> 8 then None
                                      else Some (hextets_value hextets)))
                       else if length parsedLeft \<noteq> 8 then None
                       else Some (hextets_value parsedLeft))
                  | _ \<Rightarrow> None)))"

subsection \<open>CIDR text\<close>

definition parseCidr :: "js_value \<Rightarrow> error + ParsedCidr" where
  "parseCidr input =
     (case input of
        JSString text \<Rightarrow>
          (let trimmed = js_trim text;
               parts = js_split ''/'' trimmed
           in if length parts \<noteq> 2 then Inl InvalidCIDR
              else
                (let addressText = parts ! 0; prefixText = parts ! 1
                 in if addressText = [] \<or> \<not> test_digits prefixText then Inl InvalidCIDR
                    else
                      (let pfx = Number_parseInt10 prefixText
                       in if \<not> Number_isFinite pfx then Inl InvalidCIDR
                          else if js_includes '':'' addressText then
                            (if int pfx < 0 \<or> int pfx > IPV6_BITS then Inl InvalidCIDR
                             else (case parseIPv6 addressText of
                                     None \<Rightarrow> Inl InvalidCIDR
                                   | Some addr \<Rightarrow>
                                       Inr \<lparr>family = IPv6, address = addr, prefix = int pfx\<rparr>))
                          else
                            (if int pfx < 0 \<or> int pfx > IPV4_BITS then Inl InvalidCIDR
                             else (case parseIPv4 addressText of
                                     None \<Rightarrow> Inl InvalidCIDR
                                   | Some addr \<Rightarrow>
                                       Inr \<lparr>family = IPv4, address = addr, prefix = int pfx\<rparr>)))))
      | _ \<Rightarrow> Inl InvalidCIDR)"

section \<open>The regular expressions of the JavaScript engine\<close>

text \<open>
  \<open>new RegExp(source, flags)\<close> and \<open>RegExp.prototype.test\<close> belong to the JavaScript
  engine, not to the repository. They are modelled for the part of the pattern syntax
  that the compiler emits: literal characters, escaped syntax characters, character
  classes of single characters and ranges, non-capturing groups \<open>(?:a|b)\<close>, the empty
  negative lookahead \<open>(?!)\<close>, the quantifiers \<open>?\<close> and \<open>{n}\<close>, and the anchors \<open>^\<close> and
  \<open>$\<close> around the whole pattern. A pattern outside this part has no model
  (\<open>None\<close>), and \<open>new RegExp\<close> is modelled as failing on it.
\<close>

datatype rx =
    Eps
  | Never
  | Chr char
  | Cls "(char \<times> char) list"
  | Seq rx rx
  | Or rx rx
  | Opt rx
  | Rep nat rx

datatype token =
    TChar char
  | TClass "(char \<times> char) list"
  | TOpen
  | TClose
  | TBar
  | TOpt
  | TRep nat
  | TNever
  | TCaret
  | TDollar

subsection \<open>Reading a pattern\<close>

definition syntax_char :: "char \<Rightarrow> bool" where
  "syntax_char c = (c \<in> set ''^$.*+?()[]{}|/'' \<or> c = BACKSLASH)"

definition class_atom :: "char \<Rightarrow> bool" where
  "class_atom c = (c \<notin> set ''[]^-'' \<and> c \<noteq> BACKSLASH)"

text \<open>The members of a character class up to the closing bracket, and the rest.\<close>

fun class_items :: "string \<Rightarrow> ((char \<times> char) list \<times> string) option" where
  "class_items [] = None"
| "class_items (a # rest) =
     (if a = CHR '']'' then Some ([], rest)
      else if \<not> class_atom a then None
      else (case rest of
              m # b # rest' \<Rightarrow>
                (if m = CHR ''-'' then
                   (if class_atom b \<and> charCode a \<le> charCode b
                    then map_option (\<lambda>(its, r). ((a, b) # its, r)) (class_items rest')
                    else None)
                 else map_option (\<lambda>(its, r). ((a, a) # its, r)) (class_items rest))
            | _ \<Rightarrow> map_option (\<lambda>(its, r). ((a, a) # its, r)) (class_items rest)))"

text \<open>The count of a quantifier \<open>{n}\<close> after the opening brace, and the rest.\<close>

definition rep_count :: "string \<Rightarrow> (nat \<times> string) option" where
  "rep_count s =
     (let ds = takeWhile is_digit s; rest = dropWhile is_digit s
      in if ds = [] then None
         else (case rest of
                 c # rest' \<Rightarrow> if c = CHR ''}'' then Some (Number_parseInt10 ds, rest') else None
               | [] \<Rightarrow> None))"

lemma class_items_length:
  "class_items s = Some (its, r) \<Longrightarrow> length r < length s"
proof (induction s arbitrary: its r rule: length_induct)
  case (1 s)
  show ?case
  proof (cases s)
    case Nil
    with 1(2) show ?thesis by simp
  next
    case (Cons a rest)
    note s = Cons
    show ?thesis
    proof (cases "a = CHR '']''")
      case True
      with 1(2) s show ?thesis by simp
    next
      case na: False
      show ?thesis
      proof (cases "class_atom a")
        case False
        with 1(2) s na show ?thesis by simp
      next
        case atom: True
        have single: "class_items rest = Some (its', r) \<Longrightarrow> length r < length s" for its'
          using 1(1) [rule_format, of rest its' r] s by simp
        show ?thesis
        proof (cases rest)
          case Nil
          with 1(2) s na atom show ?thesis by simp
        next
          case (Cons m rest1)
          note rest = Cons
          show ?thesis
          proof (cases rest1)
            case Nil
            with 1(2) s na atom rest single show ?thesis
              by (auto split: if_splits)
          next
            case (Cons b rest2)
            show ?thesis
            proof (cases "m = CHR ''-''")
              case True
              with 1(2) s na atom rest Cons
              obtain its' where "class_items rest2 = Some (its', r)"
                by (auto split: if_splits)
              then have "length r < length rest2"
                using 1(1) [rule_format, of rest2 its' r] s rest Cons by simp
              then show ?thesis using s rest Cons by simp
            next
              case False
              with 1(2) s na atom rest Cons
              obtain its' where "class_items rest = Some (its', r)"
                by (auto split: if_splits)
              then show ?thesis using single by blast
            qed
          qed
        qed
      qed
    qed
  qed
qed

lemma rep_count_length:
  assumes "rep_count s = Some (n, r)"
  shows "length r < length s"
proof -
  have le: "length (dropWhile is_digit s) \<le> length s"
    by (rule length_dropWhile_le)
  from assms have "\<exists>c. dropWhile is_digit s = c # r"
    unfolding rep_count_def Let_def
    by (simp split: if_splits list.splits)
  with le show ?thesis by auto
qed

text \<open>The first token of a pattern, and the rest.\<close>

definition next_token :: "string \<Rightarrow> (token \<times> string) option" where
  "next_token s =
     (case s of
        [] \<Rightarrow> None
      | c # cs \<Rightarrow>
          if c = BACKSLASH then
            (case cs of
               [] \<Rightarrow> None
             | d # ds \<Rightarrow> if syntax_char d then Some (TChar d, ds) else None)
          else if c = CHR ''['' then
            (case class_items cs of
               None \<Rightarrow> None
             | Some (its, rest) \<Rightarrow> if its = [] then None else Some (TClass its, rest))
          else if c = CHR ''('' then
            (if take 2 cs = ''?:'' then Some (TOpen, drop 2 cs)
             else if take 3 cs = ''?!)'' then Some (TNever, drop 3 cs)
             else None)
          else if c = CHR '')'' then Some (TClose, cs)
          else if c = CHR ''|'' then Some (TBar, cs)
          else if c = CHR ''?'' then Some (TOpt, cs)
          else if c = CHR ''{'' then
            (case rep_count cs of
               None \<Rightarrow> None
             | Some (n, rest) \<Rightarrow> Some (TRep n, rest))
          else if c = CHR ''^'' then Some (TCaret, cs)
          else if c = CHR ''$'' then Some (TDollar, cs)
          else if syntax_char c then None
          else Some (TChar c, cs))"

lemma next_token_length:
  assumes "next_token s = Some (t, r)"
  shows "length r < length s"
proof (cases s)
  case Nil
  with assms show ?thesis by (simp add: next_token_def)
next
  case (Cons c cs)
  have 1: "class_items cs = Some (its, r) \<Longrightarrow> length r < Suc (length cs)" for its
    using class_items_length [of cs its r] by simp
  have 2: "rep_count cs = Some (n, r) \<Longrightarrow> length r < Suc (length cs)" for n
    using rep_count_length [of cs n r] by simp
  from assms Cons show ?thesis
    unfolding next_token_def
    by (auto split: if_splits list.splits option.splits dest: 1 2)
qed

function tokenize :: "string \<Rightarrow> token list option" where
  "tokenize s =
     (if s = [] then Some []
      else (case next_token s of
              None \<Rightarrow> None
            | Some (t, rest) \<Rightarrow> map_option ((#) t) (tokenize rest)))"
  by pat_completeness auto
termination
  by (relation "measure length") (auto dest: next_token_length)

declare tokenize.simps [simp del]

text \<open>
  The tokens are assembled on a stack of open groups. A frame holds the finished
  alternatives of its group and the terms of the alternative being read.
\<close>

type_synonym frame = "rx list list \<times> rx list"

definition cat :: "rx list \<Rightarrow> rx" where
  "cat ts = foldr Seq ts Eps"

definition alt :: "rx list list \<Rightarrow> rx" where
  "alt rows = foldr Or (map cat rows) Never"

fun quantified :: "rx \<Rightarrow> bool" where
  "quantified (Opt r) = True"
| "quantified (Rep n r) = True"
| "quantified Never = True"
| "quantified r = False"

definition push_term :: "rx \<Rightarrow> frame list \<Rightarrow> frame list option" where
  "push_term t st =
     (case st of [] \<Rightarrow> None | (alts, cur) # stk \<Rightarrow> Some ((alts, cur @ [t]) # stk))"

definition quantify :: "(rx \<Rightarrow> rx) \<Rightarrow> frame list \<Rightarrow> frame list option" where
  "quantify q st =
     (case st of
        [] \<Rightarrow> None
      | (alts, cur) # stk \<Rightarrow>
          if cur = [] \<or> quantified (last cur) then None
          else Some ((alts, butlast cur @ [q (last cur)]) # stk))"

fun step :: "token \<Rightarrow> frame list \<Rightarrow> frame list option" where
  "step (TChar c) st = push_term (Chr c) st"
| "step (TClass its) st = push_term (Cls its) st"
| "step TNever st = push_term Never st"
| "step TOpen st = Some (([], []) # st)"
| "step TBar st =
     (case st of [] \<Rightarrow> None | (alts, cur) # stk \<Rightarrow> Some ((alts @ [cur], []) # stk))"
| "step TClose st =
     (case st of
        (alts, cur) # (alts', cur') # stk \<Rightarrow>
          Some ((alts', cur' @ [alt (alts @ [cur])]) # stk)
      | _ \<Rightarrow> None)"
| "step TOpt st = quantify Opt st"
| "step (TRep n) st = quantify (Rep n) st"
| "step TCaret st = None"
| "step TDollar st = None"

fun run :: "token list \<Rightarrow> frame list \<Rightarrow> frame list option" where
  "run [] st = Some st"
| "run (t # ts) st = (case step t st of None \<Rightarrow> None | Some st' \<Rightarrow> run ts st')"

definition parse_tokens :: "token list \<Rightarrow> rx option" where
  "parse_tokens toks =
     (case run toks [([], [])] of
        Some [(alts, cur)] \<Rightarrow> Some (alt (alts @ [cur]))
      | _ \<Rightarrow> None)"

text \<open>A whole pattern: \<open>^\<close>, a disjunction, \<open>$\<close>.\<close>

definition parse_pattern :: "string \<Rightarrow> rx option" where
  "parse_pattern source =
     (case tokenize source of
        Some (TCaret # toks) \<Rightarrow>
          (if toks \<noteq> [] \<and> last toks = TDollar then parse_tokens (butlast toks) else None)
      | _ \<Rightarrow> None)"

subsection \<open>Matching\<close>

text \<open>
  \<open>Canonicalize\<close> of the engine without the \<open>u\<close> flag maps a code unit to its upper
  case; below 256 these are the ASCII letters and the Latin-1 letters with an upper
  case below 256.
\<close>

definition canonicalize :: "char \<Rightarrow> char" where
  "canonicalize c =
     (let n = charCode c
      in if (97 \<le> n \<and> n \<le> 122) \<or> (224 \<le> n \<and> n \<le> 254 \<and> n \<noteq> 247)
         then char_of (n - 32) else c)"

definition char_eq :: "bool \<Rightarrow> char \<Rightarrow> char \<Rightarrow> bool" where
  "char_eq ic a x = (if ic then canonicalize a = canonicalize x else a = x)"

definition class_match :: "bool \<Rightarrow> (char \<times> char) list \<Rightarrow> char \<Rightarrow> bool" where
  "class_match ic its x =
     list_ex (\<lambda>(lo, hi). list_ex (\<lambda>n. char_eq ic (char_of n) x) [charCode lo ..< Suc (charCode hi)]) its"

text \<open>
  \<open>rests ic r s\<close> lists what is left of \<open>s\<close> after each way of matching \<open>r\<close> at its
  start; the anchored pattern matches \<open>s\<close> when nothing can be left.
\<close>

fun rests :: "bool \<Rightarrow> rx \<Rightarrow> string \<Rightarrow> string list" where
  "rests ic Eps s = [s]"
| "rests ic Never s = []"
| "rests ic (Chr c) s = (case s of [] \<Rightarrow> [] | x # xs \<Rightarrow> if char_eq ic c x then [xs] else [])"
| "rests ic (Cls its) s =
     (case s of [] \<Rightarrow> [] | x # xs \<Rightarrow> if class_match ic its x then [xs] else [])"
| "rests ic (Seq a b) s = concat (map (rests ic b) (rests ic a s))"
| "rests ic (Or a b) s = rests ic a s @ rests ic b s"
| "rests ic (Opt a) s = rests ic a s @ [s]"
| "rests ic (Rep n a) s = ((\<lambda>ss. concat (map (rests ic a) ss)) ^^ n) [s]"

definition rx_matches :: "bool \<Rightarrow> rx \<Rightarrow> string \<Rightarrow> bool" where
  "rx_matches ic r s = ([] \<in> set (rests ic r s))"

record RegExp =
  source :: string
  ignoreCase :: bool

definition new_RegExp :: "string \<Rightarrow> string \<Rightarrow> error + RegExp" where
  "new_RegExp pattern flags =
     (if flags \<noteq> '''' \<and> flags \<noteq> ''i'' then Inl RegExpSyntaxError
      else (case parse_pattern pattern of
              None \<Rightarrow> Inl RegExpSyntaxError
            | Some r \<Rightarrow> Inr \<lparr>source = pattern, ignoreCase = (flags = ''i'')\<rparr>))"

definition RegExp_test :: "RegExp \<Rightarrow> string \<Rightarrow> bool" where
  "RegExp_test re s =
     (case parse_pattern (source re) of
        None \<Rightarrow> False
      | Some r \<Rightarrow> rx_matches (ignoreCase re) r s)"

section \<open>The hexadecimal range compiler\<close>

text \<open>A loop body that can throw, run over an array: the first error ends the loop.\<close>

fun map_result :: "('a \<Rightarrow> error + 'b) \<Rightarrow> 'a list \<Rightarrow> error + 'b list" where
  "map_result f [] = Inr []"
| "map_result f (x # xs) =
     (case f x of
        Inl e \<Rightarrow> Inl e
      | Inr y \<Rightarrow> (case map_result f xs of Inl e \<Rightarrow> Inl e | Inr ys \<Rightarrow> Inr (y # ys)))"

text \<open>Sequencing of steps that can throw: the first error is the result.\<close>

definition bind_result :: "error + 'a \<Rightarrow> ('a \<Rightarrow> error + 'b) \<Rightarrow> error + 'b" where
  "bind_result m f = (case m of Inl e \<Rightarrow> Inl e | Inr x \<Rightarrow> f x)"

text \<open>A call of \<open>hexDigitRange\<close>: no result of its loop is \<open>NonTermination\<close>.\<close>

definition digit_range :: "nat \<Rightarrow> nat \<Rightarrow> error + string" where
  "digit_range a b = (case hexDigitRange a b of None \<Rightarrow> Inl NonTermination | Some d \<Rightarrow> Inr d)"

text \<open>
  \<open>hexRangeParts\<close>. The index of the first difference is the length of the common
  prefix; \<open>highDigit - 1\<close> on naturals is 0 for \<open>highDigit = 0\<close>, where the source has
  \<open>-1\<close>, and the test \<open>lowDigit + 1 <= highDigit - 1\<close> fails for both.
\<close>

function hexRangeParts :: "string \<Rightarrow> string \<Rightarrow> error + string list" where
  "hexRangeParts low high =
     (if length low \<noteq> length high then Inr []
      else if low = high then Inr [low]
      else
        (let len = length low
         in if low = replicate len CHR ''0'' \<and> high = replicate len CHR ''f''
            then Inr [hexWildcard len]
            else
              (let splitIndex = length (takeWhile (\<lambda>(a, b). a = b) (zip low high))
               in if splitIndex = len then Inr [low]
                  else
                    (let pre = take splitIndex low;
                         suffixLength = len - splitIndex - 1
                     in bind_result (hexValue (low ! splitIndex)) (\<lambda>lowDigit.
                        bind_result (hexValue (high ! splitIndex)) (\<lambda>highDigit.
                        bind_result
                          (hexRangeParts (drop (splitIndex + 1) low)
                             (replicate suffixLength CHR ''f''))
                          (\<lambda>lowerSuffixes.
                        bind_result
                          (map_result
                             (\<lambda>suffix. bind_result (digit_range lowDigit lowDigit)
                                          (\<lambda>d. Inr (pre @ d @ suffix)))
                             lowerSuffixes)
                          (\<lambda>lowerParts.
                        bind_result
                          (if lowDigit + 1 \<le> highDigit - 1
                           then bind_result (digit_range (lowDigit + 1) (highDigit - 1))
                                  (\<lambda>d. Inr [pre @ d @ hexWildcard suffixLength])
                           else Inr [])
                          (\<lambda>middleParts.
                        bind_result
                          (hexRangeParts (replicate suffixLength CHR ''0'')
                             (drop (splitIndex + 1) high))
                          (\<lambda>upperSuffixes.
                        bind_result
                          (map_result
                             (\<lambda>suffix. bind_result (digit_range highDigit highDigit)
                                          (\<lambda>d. Inr (pre @ d @ suffix)))
                             upperSuffixes)
                          (\<lambda>upperParts.
                             Inr (uniquePatterns
                                    (lowerParts @ middleParts @ upperParts)))))))))))))"
  by pat_completeness auto
termination
proof (relation "measure (\<lambda>(low, high). length low)", goal_cases)
  case 1
  then show ?case by simp
next
  case (2 low high len splitIndex pre suffixLength)
  then have "0 < length low" by (cases low) auto
  then show ?case by simp
next
  case (3 low high len splitIndex pre suffixLength)
  then have "0 < length low" by (cases low) auto
  with 3 show ?case by simp
qed

declare hexRangeParts.simps [simp del]

text \<open>
  The process-wide \<open>hextetRangeCache\<close> is a state that every call takes and returns.
  \<open>hextetRangeMiss\<close> is the part of \<open>hextetRangePattern\<close> between the lookup and the
  store; a cached empty string is not truthy and counts as a miss.
\<close>

type_synonym cache = "string \<rightharpoonup> string"

definition cacheKey :: "nat \<Rightarrow> nat \<Rightarrow> string" where
  "cacheKey start endv = String_of_nat start @ ''-'' @ String_of_nat endv"

definition hextetRangeMiss :: "nat \<Rightarrow> nat \<Rightarrow> error + string" where
  "hextetRangeMiss start endv =
     (if start = 0 \<and> endv = 0xffff then Inr IPV6_ANY_HEXTET
      else if start = endv then Inr (padStart 4 CHR ''0'' (toString16 start))
      else
        (let low = padStart 4 CHR ''0'' (toString16 start);
             high = padStart 4 CHR ''0'' (toString16 endv)
         in bind_result (hexRangeParts low high) (\<lambda>parts. Inr (orPattern parts))))"

definition hextetRangePattern :: "nat \<Rightarrow> nat \<Rightarrow> cache \<Rightarrow> (error + string) \<times> cache" where
  "hextetRangePattern start endv cache =
     (let key = cacheKey start endv
      in case cache key of
           Some cached \<Rightarrow>
             (if cached \<noteq> [] then (Inr cached, cache)
              else (case hextetRangeMiss start endv of
                      Inl e \<Rightarrow> (Inl e, cache)
                    | Inr pattern \<Rightarrow> (Inr pattern, cache(key \<mapsto> pattern))))
         | None \<Rightarrow>
             (case hextetRangeMiss start endv of
                Inl e \<Rightarrow> (Inl e, cache)
              | Inr pattern \<Rightarrow> (Inr pattern, cache(key \<mapsto> pattern))))"

section \<open>The segment pattern builder\<close>

text \<open>
  The segment vectors of the source have 4 or 8 entries, so every read \<open>start[i]\<close> and
  every write \<open>firstEnd[i] = v\<close> of the builders is in range; \<open>end[i]\<close> in
  \<open>isFullRange\<close> is \<open>undefined\<close>, and so not the maximum, beyond the length of \<open>end\<close>.
\<close>

definition isFullRange :: "nat list \<Rightarrow> nat list \<Rightarrow> nat \<Rightarrow> nat \<Rightarrow> nat \<Rightarrow> bool" where
  "isFullRange start endv fromIndex minValue maxValue =
     list_all (\<lambda>i. start ! i = minValue \<and> i < length endv \<and> endv ! i = maxValue)
       [fromIndex..<length start]"

definition combineWithSuffix :: "string \<Rightarrow> string list \<Rightarrow> string \<Rightarrow> string list" where
  "combineWithSuffix head suffixes separator =
     map (\<lambda>suffix. if length suffix = 0 then head else head @ separator @ suffix) suffixes"

definition ipv4AnySuffix :: "int \<Rightarrow> string" where
  "ipv4AnySuffix count =
     (if count \<le> 0 then [] else join (BACKSLASH # ''.'') (replicate (nat count) IPV4_ANY_OCTET))"

definition ipv6AnySuffix :: "int \<Rightarrow> string" where
  "ipv6AnySuffix count =
     (if count \<le> 0 then [] else join '':'' (replicate (nat count) IPV6_ANY_HEXTET))"

text \<open>\<open>for (let i = from; i < to; i += 1) xs[i] = v\<close>.\<close>

definition fill_from :: "nat list \<Rightarrow> nat \<Rightarrow> nat \<Rightarrow> nat \<Rightarrow> nat list" where
  "fill_from xs from to v = fold (\<lambda>i ys. ys[i := v]) [from..<to] xs"

lemma length_fill_from [simp]: "length (fill_from xs from to v) = length xs"
proof -
  have "length (fold (\<lambda>i ys. ys[i := v]) is xs) = length xs" for "is"
    by (induction "is" arbitrary: xs) simp_all
  then show ?thesis by (simp add: fill_from_def)
qed

lemma not_isFullRange_index:
  "\<not> isFullRange start endv index lo hi \<Longrightarrow> index < length start"
  by (cases "index < length start") (simp_all add: isFullRange_def)

function buildIPv4Patterns :: "nat list \<Rightarrow> nat list \<Rightarrow> nat \<Rightarrow> string list" where
  "buildIPv4Patterns start endv index =
     (if index = 4 then [[]]
      else if isFullRange start endv index 0 255 then [ipv4AnySuffix (4 - int index)]
      else
        (let low = start ! index; high = endv ! index
         in if low = high then
              combineWithSuffix (octetRangePattern low high)
                (buildIPv4Patterns start endv (index + 1)) (BACKSLASH # ''.'')
            else
              (let firstEnd = fill_from ((start)[index := low]) (index + 1) 4 255;
                   lowPatterns =
                     combineWithSuffix (octetRangePattern low low)
                       (buildIPv4Patterns start firstEnd (index + 1)) (BACKSLASH # ''.'');
                   middlePatterns =
                     (if low + 1 \<le> high - 1 then
                        (let middle = octetRangePattern (low + 1) (high - 1);
                             suffix = ipv4AnySuffix (4 - int index - 1)
                         in [if suffix \<noteq> [] then middle @ BACKSLASH # ''.'' @ suffix else middle])
                      else []);
                   lastStart = fill_from ((endv)[index := high]) (index + 1) 4 0;
                   highPatterns =
                     combineWithSuffix (octetRangePattern high high)
                       (buildIPv4Patterns lastStart endv (index + 1)) (BACKSLASH # ''.'')
               in uniquePatterns (lowPatterns @ middlePatterns @ highPatterns))))"
  by pat_completeness auto
termination
  by (relation "measure (\<lambda>(start, endv, index). max (length start) (length endv) - index)")
     (auto dest: not_isFullRange_index)

declare buildIPv4Patterns.simps [simp del]

text \<open>
  Sequencing of steps that can throw and that use the cache: an error keeps the cache
  as it was when the step threw.
\<close>

definition bind_state ::
  "(cache \<Rightarrow> (error + 'a) \<times> cache) \<Rightarrow> ('a \<Rightarrow> cache \<Rightarrow> (error + 'b) \<times> cache)
     \<Rightarrow> cache \<Rightarrow> (error + 'b) \<times> cache" where
  "bind_state m f cache =
     (case m cache of (Inl e, c) \<Rightarrow> (Inl e, c) | (Inr x, c) \<Rightarrow> f x c)"

definition return_state :: "'a \<Rightarrow> cache \<Rightarrow> (error + 'a) \<times> cache" where
  "return_state x cache = (Inr x, cache)"

function buildIPv6Patterns ::
  "nat list \<Rightarrow> nat list \<Rightarrow> nat \<Rightarrow> cache \<Rightarrow> (error + string list) \<times> cache" where
  "buildIPv6Patterns start endv index =
     (if index = 8 then return_state [[]]
      else if isFullRange start endv index 0 0xffff
      then return_state [ipv6AnySuffix (8 - int index)]
      else
        (let low = start ! index; high = endv ! index
         in if low = high then
              bind_state (hextetRangePattern low high) (\<lambda>head.
              bind_state (buildIPv6Patterns start endv (index + 1)) (\<lambda>suffixes.
                return_state (combineWithSuffix head suffixes '':'')))
            else
              (let firstEnd = fill_from ((start)[index := low]) (index + 1) 8 0xffff;
                   lastStart = fill_from ((endv)[index := high]) (index + 1) 8 0
               in bind_state (hextetRangePattern low low) (\<lambda>lowHead.
                  bind_state (buildIPv6Patterns start firstEnd (index + 1)) (\<lambda>lowSuffixes.
                  bind_state
                    (if low + 1 \<le> high - 1 then
                       bind_state (hextetRangePattern (low + 1) (high - 1)) (\<lambda>middle.
                         (let suffix = ipv6AnySuffix (8 - int index - 1)
                          in return_state
                               [if suffix \<noteq> [] then middle @ '':'' @ suffix else middle]))
                     else return_state [])
                    (\<lambda>middlePatterns.
                  bind_state (hextetRangePattern high high) (\<lambda>highHead.
                  bind_state (buildIPv6Patterns lastStart endv (index + 1)) (\<lambda>highSuffixes.
                    return_state
                      (uniquePatterns
                         (combineWithSuffix lowHead lowSuffixes '':'' @ middlePatterns
                            @ combineWithSuffix highHead highSuffixes '':''))))))))))"
  by pat_completeness auto
termination
  by (relation "measure (\<lambda>(start, endv, index). max (length start) (length endv) - index)")
     (auto dest: not_isFullRange_index)

declare buildIPv6Patterns.simps [simp del]

section \<open>The pattern minimizer\<close>

text \<open>
  The loop of \<open>splitPattern\<close> over the code units of the pattern. \<open>cur\<close> is
  \<open>pattern.slice(start, i)\<close>, the text read since the last separator. With an empty
  separator the loop of the source steps back as far as it advances and never ends.
\<close>

function splitLoop ::
  "string \<Rightarrow> string \<Rightarrow> string list \<Rightarrow> string \<Rightarrow> nat \<Rightarrow> bool \<Rightarrow> bool \<Rightarrow> string list" where
  "splitLoop separator [] parts cur parenDepth inCharClass escaped = parts @ [cur]"
| "splitLoop separator (c # cs) parts cur parenDepth inCharClass escaped =
     (if \<not> escaped \<and> \<not> inCharClass \<and> parenDepth = 0 \<and> separator \<noteq> []
         \<and> js_startsWith separator (c # cs)
      then splitLoop separator (drop (length separator) (c # cs)) (parts @ [cur]) []
             parenDepth inCharClass escaped
      else if escaped then splitLoop separator cs parts (cur @ [c]) parenDepth inCharClass False
      else if c = BACKSLASH then splitLoop separator cs parts (cur @ [c]) parenDepth inCharClass True
      else if inCharClass then
        splitLoop separator cs parts (cur @ [c]) parenDepth (c \<noteq> CHR '']'') escaped
      else if c = CHR ''['' then splitLoop separator cs parts (cur @ [c]) parenDepth True escaped
      else if c = CHR ''('' then
        splitLoop separator cs parts (cur @ [c]) (parenDepth + 1) inCharClass escaped
      else if c = CHR '')'' \<and> parenDepth > 0 then
        splitLoop separator cs parts (cur @ [c]) (parenDepth - 1) inCharClass escaped
      else splitLoop separator cs parts (cur @ [c]) parenDepth inCharClass escaped)"
  by pat_completeness auto
termination
  by (relation "measure (\<lambda>(separator, rest, parts, cur, d, ic, es). length rest)") auto

definition splitPattern :: "string \<Rightarrow> string \<Rightarrow> nat \<Rightarrow> error + string list" where
  "splitPattern pattern separator segmentCount =
     (if separator = [] \<and> pattern \<noteq> [] then Inl NonTermination
      else
        (let parts = splitLoop separator pattern [] [] 0 False False
         in if length parts \<noteq> segmentCount then Inl InternalPatternSplitError
            else Inr parts))"

text \<open>
  \<open>uniquePatternRows\<close>: a \<open>Map\<close> from the joined row to the row, filled unless the
  key is present, and read in the order of insertion.
\<close>

definition row_add :: "string list \<Rightarrow> (string \<times> string list) list \<Rightarrow> (string \<times> string list) list" where
  "row_add row out =
     (let key = join [CHR 0x02] row
      in if key \<in> set (map fst out) then out else out @ [(key, row)])"

definition uniquePatternRows :: "string list list \<Rightarrow> string list list" where
  "uniquePatternRows rows = map snd (fold row_add rows [])"

text \<open>
  One turn of the \<open>for\<close> loop over the segment positions. \<open>grouped\<close> is a \<open>Map\<close> from the
  key of a row (the row with position \<open>index\<close> blanked) to a template and the variants
  found at \<open>index\<close>. Every row has \<open>segmentCount\<close> entries (\<open>splitPattern\<close> throws
  otherwise), so the reads and writes at \<open>index\<close> are in range.
\<close>

type_synonym group = "string list \<times> string list"

definition group_key :: "nat \<Rightarrow> string list \<Rightarrow> string" where
  "group_key index row = join [CHR 0x01] (row[index := [CHR 0x00]])"

definition group_add :: "nat \<Rightarrow> string list \<Rightarrow> (string \<times> group) list \<Rightarrow> (string \<times> group) list" where
  "group_add index row grouped =
     (let key = group_key index row
      in case map_of grouped key of
           Some existing \<Rightarrow>
             map (\<lambda>(k, (template, variants)).
                    if k = key then (k, (template, variants @ [row ! index]))
                    else (k, (template, variants)))
               grouped
         | None \<Rightarrow> grouped @ [(key, (row, [row ! index]))])"

definition merge_entry :: "nat \<Rightarrow> group \<Rightarrow> string list \<times> bool" where
  "merge_entry index entry =
     (let variants = uniquePatterns (snd entry);
          merged = (if length variants = 1 then variants ! 0 else orPattern variants)
      in ((fst entry)[index := merged], length variants > 1))"

definition merge_index :: "nat \<Rightarrow> string list list \<Rightarrow> string list list \<times> bool" where
  "merge_index index rows =
     (let grouped = fold (group_add index) rows [];
          merged = map (\<lambda>(key, entry). merge_entry index entry) grouped
      in (uniquePatternRows (map fst merged), list_ex snd merged))"

text \<open>The \<open>for\<close> loop over the positions, from \<open>index\<close> on.\<close>

function minimize_pass ::
  "nat \<Rightarrow> nat \<Rightarrow> string list list \<Rightarrow> bool \<Rightarrow> string list list \<times> bool" where
  "minimize_pass segmentCount index rows changed =
     (if index < segmentCount then
        (case merge_index index rows of
           (rows', changed') \<Rightarrow>
             minimize_pass segmentCount (index + 1) rows' (changed \<or> changed'))
      else (rows, changed))"
  by pat_completeness auto
termination
  by (relation "measure (\<lambda>(segmentCount, index, rows, changed). segmentCount - index)") auto

declare minimize_pass.simps [simp del]

text \<open>The \<open>while (changed)\<close> loop: nothing in its text bounds the number of turns.\<close>

partial_function (option) minimize_while :: "nat \<Rightarrow> string list list \<Rightarrow> string list list option" where
  "minimize_while segmentCount rows =
     (case minimize_pass segmentCount 0 rows False of
        (rows', changed) \<Rightarrow>
          if changed then minimize_while segmentCount rows' else Some rows')"

definition minimizePatternSet :: "string list \<Rightarrow> string \<Rightarrow> nat \<Rightarrow> error + string list" where
  "minimizePatternSet patterns separator segmentCount =
     (if length patterns \<le> 1 then Inr patterns
      else
        bind_result
          (map_result (\<lambda>pattern. splitPattern pattern separator segmentCount) patterns)
          (\<lambda>split.
             case minimize_while segmentCount (uniquePatternRows split) of
               None \<Rightarrow> Inl NonTermination
             | Some rows \<Rightarrow> Inr (map (join separator) rows)))"

section \<open>The regex assembler and the public operation\<close>

definition buildRegex :: "string list \<Rightarrow> string \<Rightarrow> error + RegExp" where
  "buildRegex patterns flags = new_RegExp (''^(?:'' @ orPattern patterns @ '')$'') flags"

text \<open>
  The part of \<open>cidrToRegex\<close> after the call of \<open>parseCidr\<close>; the flags of the IPv4
  branch are \<open>undefined\<close>, written as the empty string.
\<close>

definition compileParsed :: "ParsedCidr \<Rightarrow> cache \<Rightarrow> (error + RegExp) \<times> cache" where
  "compileParsed parsed cache =
     (if family parsed = IPv4 then
        (case normalizeRange (address parsed) IPV4_BITS (prefix parsed) of
           (start, endv) \<Rightarrow>
             (let startOctets = ipv4ToOctets start;
                  endOctets = ipv4ToOctets endv
              in (bind_result
                    (minimizePatternSet
                       (uniquePatterns (buildIPv4Patterns startOctets endOctets 0))
                       (BACKSLASH # ''.'') 4)
                    (\<lambda>patterns. buildRegex patterns []),
                  cache)))
      else
        (case normalizeRange (address parsed) IPV6_BITS (prefix parsed) of
           (start, endv) \<Rightarrow>
             (let startHextets = ipv6ToHextets start;
                  endHextets = ipv6ToHextets endv
              in case buildIPv6Patterns startHextets endHextets 0 cache of
                   (Inl e, cache') \<Rightarrow> (Inl e, cache')
                 | (Inr built, cache') \<Rightarrow>
                     (bind_result
                        (minimizePatternSet (uniquePatterns built) '':'' 8)
                        (\<lambda>patterns. buildRegex patterns ''i''),
                      cache'))))"

definition cidrToRegex :: "js_value \<Rightarrow> cache \<Rightarrow> (error + RegExp) \<times> cache" where
  "cidrToRegex cidr cache =
     (case parseCidr cidr of
        Inl e \<Rightarrow> (Inl e, cache)
      | Inr parsed \<Rightarrow> compileParsed parsed cache)"

section \<open>Sets in insertion order, joined strings, digits\<close>

lemma set_fold_set_add: "set (fold set_add xs acc) = set acc \<union> set xs"
  by (induction xs arbitrary: acc) (auto simp: set_add_def)

lemma distinct_fold_set_add: "distinct acc \<Longrightarrow> distinct (fold set_add xs acc)"
  by (induction xs arbitrary: acc) (auto simp: set_add_def)

lemma length_fold_set_add: "length (fold set_add xs acc) \<le> length acc + length xs"
proof (induction xs arbitrary: acc)
  case Nil
  show ?case by simp
next
  case (Cons x xs)
  have "length (fold set_add xs (set_add x acc)) \<le> length (set_add x acc) + length xs"
    by (rule Cons.IH)
  also have "length (set_add x acc) \<le> Suc (length acc)"
    by (simp add: set_add_def)
  finally show ?case by simp
qed

lemma fold_set_add_distinct:
  "distinct (acc @ xs) \<Longrightarrow> fold set_add xs acc = acc @ xs"
  by (induction xs arbitrary: acc) (auto simp: set_add_def)

lemma set_uniquePatterns [simp]: "set (uniquePatterns xs) = set xs"
  by (simp add: uniquePatterns_def set_fold_set_add)

lemma distinct_uniquePatterns [simp]: "distinct (uniquePatterns xs)"
  by (simp add: uniquePatterns_def distinct_fold_set_add)

lemma length_uniquePatterns: "length (uniquePatterns xs) \<le> length xs"
  using length_fold_set_add [of xs "[]"] by (simp add: uniquePatterns_def)

lemma uniquePatterns_distinct: "distinct xs \<Longrightarrow> uniquePatterns xs = xs"
  using fold_set_add_distinct [of "[]" xs] by (simp add: uniquePatterns_def)

lemma uniquePatterns_idem [simp]: "uniquePatterns (uniquePatterns xs) = uniquePatterns xs"
  by (simp add: uniquePatterns_distinct)

lemma uniquePatterns_Nil [simp]: "uniquePatterns [] = []"
  by (simp add: uniquePatterns_def)

lemma uniquePatterns_eq_Nil [simp]: "uniquePatterns xs = [] \<longleftrightarrow> xs = []"
  using set_uniquePatterns [of xs] by (metis set_empty)

lemma uniquePatterns_single [simp]: "uniquePatterns [x] = [x]"
  by (simp add: uniquePatterns_def set_add_def)

lemma join_Cons: "xs \<noteq> [] \<Longrightarrow> join sep (x # xs) = x @ sep @ join sep xs"
  by (cases xs) simp_all

lemma join_append_single: "xs \<noteq> [] \<Longrightarrow> join sep (xs @ [x]) = join sep xs @ sep @ x"
  by (induction sep xs rule: join.induct) (simp_all add: join_Cons)

section \<open>The language of a regular expression\<close>

definition conc :: "string set \<Rightarrow> string set \<Rightarrow> string set" where
  "conc A B = {u @ v | u v. u \<in> A \<and> v \<in> B}"

primrec lpow :: "string set \<Rightarrow> nat \<Rightarrow> string set" where
  "lpow L 0 = {[]}"
| "lpow L (Suc n) = conc L (lpow L n)"

fun lang :: "bool \<Rightarrow> rx \<Rightarrow> string set" where
  "lang ic Eps = {[]}"
| "lang ic Never = {}"
| "lang ic (Chr c) = {[x] | x. char_eq ic c x}"
| "lang ic (Cls its) = {[x] | x. class_match ic its x}"
| "lang ic (Seq a b) = conc (lang ic a) (lang ic b)"
| "lang ic (Or a b) = lang ic a \<union> lang ic b"
| "lang ic (Opt a) = insert [] (lang ic a)"
| "lang ic (Rep n a) = lpow (lang ic a) n"

lemma conc_empty [simp]: "conc {} B = {}" "conc A {} = {}"
  by (auto simp: conc_def)

lemma conc_eps [simp]: "conc {[]} B = B" "conc A {[]} = A"
  by (auto simp: conc_def)

lemma conc_assoc: "conc (conc A B) C = conc A (conc B C)"
proof (rule set_eqI)
  fix w
  have "w \<in> conc (conc A B) C \<longleftrightarrow> (\<exists>a b c. a \<in> A \<and> b \<in> B \<and> c \<in> C \<and> w = (a @ b) @ c)"
    unfolding conc_def by blast
  also have "\<dots> \<longleftrightarrow> (\<exists>a b c. a \<in> A \<and> b \<in> B \<and> c \<in> C \<and> w = a @ (b @ c))"
    by simp
  also have "\<dots> \<longleftrightarrow> w \<in> conc A (conc B C)"
    unfolding conc_def by blast
  finally show "w \<in> conc (conc A B) C \<longleftrightarrow> w \<in> conc A (conc B C)" .
qed

lemma conc_Un_left: "conc (A \<union> B) C = conc A C \<union> conc B C"
  by (auto simp: conc_def)

lemma conc_Un_right: "conc A (B \<union> C) = conc A B \<union> conc A C"
  by (auto simp: conc_def)

lemma conc_UN_left: "conc (\<Union>x\<in>X. F x) C = (\<Union>x\<in>X. conc (F x) C)"
  by (auto simp: conc_def)

lemma conc_UN_right: "conc A (\<Union>x\<in>X. F x) = (\<Union>x\<in>X. conc A (F x))"
  by (auto simp: conc_def)

lemma conc_singleton: "conc {u} {v} = {u @ v}"
  by (auto simp: conc_def)

lemma concI: "u \<in> A \<Longrightarrow> v \<in> B \<Longrightarrow> u @ v \<in> conc A B"
  by (auto simp: conc_def)

lemma conc_iff: "w \<in> conc A B \<longleftrightarrow> (\<exists>u v. w = u @ v \<and> u \<in> A \<and> v \<in> B)"
  by (simp add: conc_def)

lemma conc_mono: "A \<subseteq> A' \<Longrightarrow> B \<subseteq> B' \<Longrightarrow> conc A B \<subseteq> conc A' B'"
  by (auto simp: conc_def)

text \<open>What \<open>rests\<close> lists are the suffixes left by the words of the language.\<close>

definition left_by :: "string set \<Rightarrow> string \<Rightarrow> string set" where
  "left_by L s = {v. \<exists>u \<in> L. s = u @ v}"

lemma left_by_conc: "left_by (conc A B) s = (\<Union>v \<in> left_by A s. left_by B v)"
proof (rule set_eqI)
  fix w
  have "w \<in> left_by (conc A B) s \<longleftrightarrow> (\<exists>u v. u \<in> A \<and> v \<in> B \<and> s = (u @ v) @ w)"
    unfolding left_by_def conc_def by blast
  also have "\<dots> \<longleftrightarrow> (\<exists>u v. u \<in> A \<and> v \<in> B \<and> s = u @ (v @ w))"
    by simp
  also have "\<dots> \<longleftrightarrow> w \<in> (\<Union>v \<in> left_by A s. left_by B v)"
    unfolding left_by_def by blast
  finally show "w \<in> left_by (conc A B) s \<longleftrightarrow> w \<in> (\<Union>v \<in> left_by A s. left_by B v)" .
qed

lemma rests_iter:
  assumes "\<And>s. set (rests ic a s) = left_by L s"
  shows "set (((\<lambda>ss. concat (map (rests ic a) ss)) ^^ n) ss) = (\<Union>s \<in> set ss. left_by (lpow L n) s)"
proof (induction n arbitrary: ss)
  case 0
  show ?case by (auto simp: left_by_def)
next
  case (Suc n)
  have "((\<lambda>ss. concat (map (rests ic a) ss)) ^^ Suc n) ss
      = ((\<lambda>ss. concat (map (rests ic a) ss)) ^^ n) (concat (map (rests ic a) ss))"
    by (simp only: funpow_Suc_right o_apply)
  then show ?case
    by (simp add: Suc.IH assms left_by_conc del: funpow.simps)
qed

lemma set_rests: "set (rests ic r s) = left_by (lang ic r) s"
proof (induction r arbitrary: s)
  case Eps
  show ?case by (auto simp: left_by_def)
next
  case Never
  show ?case by (auto simp: left_by_def)
next
  case (Chr c)
  show ?case by (cases s) (auto simp: left_by_def)
next
  case (Cls its)
  show ?case by (cases s) (auto simp: left_by_def)
next
  case (Seq a b)
  then show ?case by (simp add: left_by_conc)
next
  case (Or a b)
  then show ?case by (auto simp: left_by_def)
next
  case (Opt a)
  then show ?case by (auto simp: left_by_def)
next
  case (Rep n a)
  then show ?case using rests_iter [of ic a "lang ic a" n "[s]"] by simp
qed

lemma rx_matches_lang: "rx_matches ic r s \<longleftrightarrow> s \<in> lang ic r"
  by (auto simp: rx_matches_def set_rests left_by_def)

lemma lang_cat_Nil [simp]: "lang ic (cat []) = {[]}"
  by (simp add: cat_def)

lemma lang_cat_Cons [simp]: "lang ic (cat (t # ts)) = conc (lang ic t) (lang ic (cat ts))"
  by (simp add: cat_def)

lemma lang_cat_append: "lang ic (cat (ts @ us)) = conc (lang ic (cat ts)) (lang ic (cat us))"
  by (induction ts) (simp_all add: conc_assoc)

lemma lang_alt: "lang ic (alt rows) = (\<Union>ts \<in> set rows. lang ic (cat ts))"
  by (induction rows) (simp_all add: alt_def)

section \<open>Patterns built from fragments\<close>

subsection \<open>Reading a concatenation\<close>

lemma class_items_append:
  "class_items s = Some (its, r) \<Longrightarrow> class_items (s @ u) = Some (its, r @ u)"
proof (induction s arbitrary: its r rule: length_induct)
  case (1 s)
  note IH = 1(1) [rule_format]
  show ?case
  proof (cases s)
    case Nil
    with 1(2) show ?thesis by simp
  next
    case (Cons a rest)
    note s = Cons
    show ?thesis
    proof (cases "a = CHR '']''")
      case True
      with 1(2) s show ?thesis by simp
    next
      case na: False
      show ?thesis
      proof (cases "class_atom a")
        case False
        with 1(2) s na show ?thesis by simp
      next
        case atom: True
        have single: "class_items rest = Some (its', r') \<Longrightarrow>
            class_items (rest @ u) = Some (its', r' @ u)" for its' r'
          using IH [of rest its' r'] s by simp
        show ?thesis
        proof (cases rest)
          case Nil
          with 1(2) s na atom show ?thesis by simp
        next
          case (Cons m rest1)
          note rest = Cons
          show ?thesis
          proof (cases rest1)
            case Nil
            with 1(2) s na atom rest have "m = CHR '']''"
              by (auto split: if_splits)
            with 1(2) s na atom rest Nil show ?thesis
              by (cases u) (auto split: if_splits)
          next
            case (Cons b rest2)
            show ?thesis
            proof (cases "m = CHR ''-''")
              case True
              with 1(2) s na atom rest Cons
              obtain its' where *: "class_atom b" "charCode a \<le> charCode b"
                  "class_items rest2 = Some (its', r)" "its = (a, b) # its'"
                by (auto split: if_splits)
              have "class_items (rest2 @ u) = Some (its', r @ u)"
                using IH [of rest2 its' r] * s rest Cons by simp
              with * True s na atom rest Cons show ?thesis by simp
            next
              case False
              with 1(2) s na atom rest Cons
              obtain its' where *: "class_items rest = Some (its', r)" "its = (a, a) # its'"
                by (auto split: if_splits)
              from single [OF *(1)] * False s na atom rest Cons show ?thesis by simp
            qed
          qed
        qed
      qed
    qed
  qed
qed

lemma rep_count_append:
  assumes "rep_count s = Some (n, r)"
  shows "rep_count (s @ u) = Some (n, r @ u)"
proof -
  from assms have d: "dropWhile is_digit s = CHR ''}'' # r" and t: "takeWhile is_digit s \<noteq> []"
    and n: "n = Number_parseInt10 (takeWhile is_digit s)"
    unfolding rep_count_def Let_def
    by (simp_all split: if_splits list.splits)
  have nd: "\<not> is_digit CHR ''}''"
    by (simp add: is_digit_def charCode_def)
  have s: "s = takeWhile is_digit s @ CHR ''}'' # r"
    using d takeWhile_dropWhile_id [of is_digit s] by simp
  have mem: "CHR ''}'' \<in> set s"
    by (subst s) simp
  have "takeWhile is_digit (s @ u) = takeWhile is_digit s"
    using mem nd by (rule takeWhile_append1)
  moreover have "dropWhile is_digit (s @ u) = CHR ''}'' # r @ u"
    using dropWhile_append1 [of "CHR ''}''" s is_digit u] mem nd d by simp
  ultimately show ?thesis
    using t n by (simp add: rep_count_def Let_def)
qed

lemma next_token_append:
  assumes "next_token s = Some (t, r)"
  shows "next_token (s @ u) = Some (t, r @ u)"
proof (cases s)
  case Nil
  with assms show ?thesis by (simp add: next_token_def)
next
  case (Cons c cs)
  have 1: "class_items cs = Some (its, r') \<Longrightarrow> class_items (cs @ u) = Some (its, r' @ u)"
    for its r'
    by (rule class_items_append)
  have 2: "rep_count cs = Some (n, r') \<Longrightarrow> rep_count (cs @ u) = Some (n, r' @ u)" for n r'
    by (rule rep_count_append)
  have 3: "take 2 cs = ''?:'' \<Longrightarrow> take 2 (cs @ u) = ''?:'' \<and> drop 2 (cs @ u) = drop 2 cs @ u"
    by (cases cs; cases "tl cs") auto
  have 4: "take 3 cs = ''?!)'' \<Longrightarrow>
      take 2 (cs @ u) \<noteq> ''?:'' \<and> take 3 (cs @ u) = ''?!)'' \<and> drop 3 (cs @ u) = drop 3 cs @ u"
    by (cases cs; cases "tl cs"; cases "tl (tl cs)") auto
  from assms Cons show ?thesis
    unfolding next_token_def
    by (auto split: if_splits list.splits option.splits simp: 1 2 3 4 simp del: take_append drop_append)
qed

lemma tokenize_Nil [simp]: "tokenize [] = Some []"
  by (simp add: tokenize.simps)

lemma map_option_append_Nil [simp]: "map_option ((@) []) x = x"
  by (cases x) simp_all

lemma tokenize_append:
  "tokenize s = Some ts \<Longrightarrow> tokenize (s @ u) = map_option ((@) ts) (tokenize u)"
proof (induction s arbitrary: ts rule: length_induct)
  case (1 s)
  show ?case
  proof (cases "s = []")
    case True
    with 1(2) show ?thesis by (simp add: option.map_ident)
  next
    case False
    with 1(2) obtain t r ts' where nt: "next_token s = Some (t, r)"
      and tr: "tokenize r = Some ts'" and ts: "ts = t # ts'"
      by (subst (asm) tokenize.simps) (auto split: option.splits)
    have "length r < length s" using nt by (rule next_token_length)
    then have IH: "tokenize (r @ u) = map_option ((@) ts') (tokenize u)"
      using 1(1) tr by blast
    have "tokenize (s @ u) = map_option ((#) t) (tokenize (r @ u))"
      using False next_token_append [OF nt, of u] by (subst tokenize.simps) simp
    then show ?thesis
      by (simp add: IH ts option.map_comp o_def)
  qed
qed

lemma run_append:
  "run (ts @ us) st = (case run ts st of None \<Rightarrow> None | Some st' \<Rightarrow> run us st')"
  by (induction ts arbitrary: st) (simp_all split: option.splits)

subsection \<open>Reading inside a context\<close>

text \<open>
  A run of the stack machine that starts from one empty frame does the same when the
  frame already holds alternatives and terms, and other frames lie below it.
\<close>

definition lift_bottom :: "frame \<Rightarrow> frame \<Rightarrow> frame" where
  "lift_bottom ctx f =
     (case fst f of
        [] \<Rightarrow> (fst ctx, snd ctx @ snd f)
      | x # xs \<Rightarrow> (fst ctx @ (snd ctx @ x) # xs, snd f))"

definition lift_stack :: "frame \<Rightarrow> frame list \<Rightarrow> frame list \<Rightarrow> frame list" where
  "lift_stack ctx below st = butlast st @ [lift_bottom ctx (last st)] @ below"

lemma lift_stack_single: "lift_stack ctx below [f] = lift_bottom ctx f # below"
  by (simp add: lift_stack_def)

lemma lift_stack_Cons: "st \<noteq> [] \<Longrightarrow> lift_stack ctx below (f # st) = f # lift_stack ctx below st"
  by (simp add: lift_stack_def)

lemma lift_stack_not_Nil [simp]: "lift_stack ctx below st \<noteq> []"
  by (simp add: lift_stack_def)

lemma lift_bottom_push:
  "lift_bottom ctx (alts, cur @ [t]) = (fst (lift_bottom ctx (alts, cur)), snd (lift_bottom ctx (alts, cur)) @ [t])"
  by (cases alts) (simp_all add: lift_bottom_def)

lemma push_term_lift:
  assumes "push_term t st = Some st'"
  shows "push_term t (lift_stack ctx below st) = Some (lift_stack ctx below st')"
proof -
  from assms obtain alts cur stk where st: "st = (alts, cur) # stk"
    and st': "st' = (alts, cur @ [t]) # stk"
    by (cases st) (auto simp: push_term_def)
  show ?thesis
  proof (cases "stk = []")
    case True
    then show ?thesis
      unfolding st st'
      by (cases alts) (simp_all add: lift_stack_single lift_bottom_def push_term_def)
  next
    case False
    then show ?thesis
      unfolding st st' by (simp add: lift_stack_Cons push_term_def)
  qed
qed

lemma quantify_lift:
  assumes "quantify q st = Some st'"
  shows "quantify q (lift_stack ctx below st) = Some (lift_stack ctx below st')"
proof -
  from assms obtain alts cur stk where st: "st = (alts, cur) # stk"
    and cur: "cur \<noteq> []" "\<not> quantified (last cur)"
    and st': "st' = (alts, butlast cur @ [q (last cur)]) # stk"
    by (cases st) (auto simp: quantify_def split: if_splits)
  show ?thesis
  proof (cases "stk = []")
    case True
    then show ?thesis
      unfolding st st' using cur
      by (cases alts) (simp_all add: lift_stack_single lift_bottom_def quantify_def butlast_append)
  next
    case False
    then show ?thesis
      unfolding st st' using cur by (simp add: lift_stack_Cons quantify_def)
  qed
qed

lemma step_lift:
  assumes "step t st = Some st'" "st \<noteq> []"
  shows "step t (lift_stack ctx below st) = Some (lift_stack ctx below st')"
proof (cases t)
  case (TChar c)
  with assms show ?thesis by (simp add: push_term_lift)
next
  case (TClass its)
  with assms show ?thesis by (simp add: push_term_lift)
next
  case TNever
  with assms show ?thesis by (simp add: push_term_lift)
next
  case TOpen
  with assms show ?thesis by (auto simp: lift_stack_Cons)
next
  case TBar
  with assms obtain alts cur stk where st: "st = (alts, cur) # stk"
    and st': "st' = (alts @ [cur], []) # stk"
    by (cases st) auto
  show ?thesis
  proof (cases "stk = []")
    case True
    then show ?thesis
      unfolding st st' TBar
      by (cases alts) (simp_all add: lift_stack_single lift_bottom_def)
  next
    case False
    then show ?thesis
      unfolding st st' TBar by (simp add: lift_stack_Cons)
  qed
next
  case TClose
  with assms obtain alts cur alts' cur' stk where st: "st = (alts, cur) # (alts', cur') # stk"
    and st': "st' = (alts', cur' @ [alt (alts @ [cur])]) # stk"
    by (cases st; cases "tl st") (auto split: list.splits)
  show ?thesis
  proof (cases "stk = []")
    case True
    then show ?thesis
      unfolding st st' TClose
      by (cases alts') (simp_all add: lift_stack_single lift_stack_Cons lift_bottom_def)
  next
    case False
    then show ?thesis
      unfolding st st' TClose by (simp add: lift_stack_Cons)
  qed
next
  case TOpt
  with assms show ?thesis by (simp add: quantify_lift)
next
  case (TRep n)
  with assms show ?thesis by (simp add: quantify_lift)
next
  case TCaret
  with assms show ?thesis by simp
next
  case TDollar
  with assms show ?thesis by simp
qed

lemma step_not_Nil: "step t st = Some st' \<Longrightarrow> st' \<noteq> []"
  by (cases t; cases st; cases "tl st")
     (auto simp: push_term_def quantify_def split: if_splits list.splits)

lemma run_lift:
  assumes "run ts st = Some st'" "st \<noteq> []"
  shows "run ts (lift_stack ctx below st) = Some (lift_stack ctx below st')"
  using assms
proof (induction ts arbitrary: st)
  case Nil
  then show ?case by simp
next
  case (Cons t ts)
  from Cons.prems obtain st1 where s: "step t st = Some st1" and r: "run ts st1 = Some st'"
    by (auto split: option.splits)
  have "st1 \<noteq> []" using s by (rule step_not_Nil)
  with Cons.IH r have "run ts (lift_stack ctx below st1) = Some (lift_stack ctx below st')"
    by blast
  with step_lift [OF s Cons.prems(2)] show ?case by simp
qed

subsection \<open>Fragments\<close>

text \<open>
  A fragment is a piece of pattern that reads as a sequence of terms, with every
  group closed and no alternative at the top level.
\<close>

definition parse_terms :: "string \<Rightarrow> rx list option" where
  "parse_terms f =
     (case tokenize f of
        None \<Rightarrow> None
      | Some toks \<Rightarrow>
          (case run toks [([], [])] of
             Some [([], ts)] \<Rightarrow> Some ts
           | _ \<Rightarrow> None))"

lemma parse_termsD:
  assumes "parse_terms f = Some ts"
  shows "\<exists>toks. tokenize f = Some toks
     \<and> (\<forall>alts cur below. run toks ((alts, cur) # below) = Some ((alts, cur @ ts) # below))"
proof -
  from assms obtain toks where tok: "tokenize f = Some toks"
    and r: "run toks [([], [])] = Some [([], ts)]"
    by (auto simp: parse_terms_def split: option.splits list.splits prod.splits)
  have "run toks ((alts, cur) # below) = Some ((alts, cur @ ts) # below)" for alts cur below
    using run_lift [OF r, of "(alts, cur)" below]
    by (simp add: lift_stack_single lift_bottom_def)
  with tok show ?thesis by blast
qed

lemma parse_termsI:
  assumes "tokenize f = Some toks" "run toks [([], [])] = Some [([], ts)]"
  shows "parse_terms f = Some ts"
  using assms by (simp add: parse_terms_def)

lemma parse_terms_append:
  assumes "parse_terms f = Some ts" "parse_terms g = Some us"
  shows "parse_terms (f @ g) = Some (ts @ us)"
proof -
  from parse_termsD [OF assms(1)] obtain tf where tf: "tokenize f = Some tf"
    and rf: "\<And>alts cur below. run tf ((alts, cur) # below) = Some ((alts, cur @ ts) # below)"
    by blast
  from parse_termsD [OF assms(2)] obtain tg where tg: "tokenize g = Some tg"
    and rg: "\<And>alts cur below. run tg ((alts, cur) # below) = Some ((alts, cur @ us) # below)"
    by blast
  have "tokenize (f @ g) = Some (tf @ tg)"
    using tokenize_append [OF tf, of g] tg by simp
  moreover have "run (tf @ tg) [([], [])] = Some [([], ts @ us)]"
    by (simp add: run_append rf rg)
  ultimately show ?thesis by (rule parse_termsI)
qed

lemma parse_terms_Nil [simp]: "parse_terms [] = Some []"
  by (simp add: parse_terms_def)

section \<open>What a fragment denotes\<close>

definition flang :: "bool \<Rightarrow> string \<Rightarrow> string set" where
  "flang ic f = (case parse_terms f of None \<Rightarrow> {} | Some ts \<Rightarrow> lang ic (cat ts))"

text \<open>
  With the flag \<open>i\<close>, a pattern without upper-case letters matches the words whose
  lower case it matches without the flag.
\<close>

definition ci :: "bool \<Rightarrow> string set \<Rightarrow> string set" where
  "ci ic L = (if ic then {w. js_toLowerCase w \<in> L} else L)"

definition den :: "bool \<Rightarrow> string \<Rightarrow> string set \<Rightarrow> bool" where
  "den ic f L = (parse_terms f \<noteq> None \<and> flang ic f = ci ic L)"

lemma ci_empty [simp]: "ci ic {} = {}"
  by (simp add: ci_def)

lemma ci_eps [simp]: "ci ic {[]} = {[]}"
  by (auto simp: ci_def js_toLowerCase_def)

lemma ci_Un: "ci ic (A \<union> B) = ci ic A \<union> ci ic B"
  by (auto simp: ci_def)

lemma ci_UN: "ci ic (\<Union>x\<in>X. F x) = (\<Union>x\<in>X. ci ic (F x))"
  by (auto simp: ci_def)

lemma ci_conc: "ci ic (conc A B) = conc (ci ic A) (ci ic B)"
proof (cases ic)
  case False
  then show ?thesis by (simp add: ci_def)
next
  case True
  show ?thesis
  proof (rule set_eqI)
    fix w
    show "w \<in> ci ic (conc A B) \<longleftrightarrow> w \<in> conc (ci ic A) (ci ic B)"
    proof
      assume "w \<in> ci ic (conc A B)"
      then obtain u v where uv: "map js_lower_char w = u @ v" "u \<in> A" "v \<in> B"
        using True by (auto simp: ci_def conc_def js_toLowerCase_def)
      let ?w1 = "take (length u) w" and ?w2 = "drop (length u) w"
      have "map js_lower_char ?w1 = u" "map js_lower_char ?w2 = v"
        using uv(1) by (metis append_eq_conv_conj take_map, metis append_eq_conv_conj drop_map)
      then have "?w1 \<in> ci ic A" "?w2 \<in> ci ic B"
        using uv True by (simp_all add: ci_def js_toLowerCase_def)
      then have "?w1 @ ?w2 \<in> conc (ci ic A) (ci ic B)"
        by (rule concI)
      then show "w \<in> conc (ci ic A) (ci ic B)" by simp
    next
      assume "w \<in> conc (ci ic A) (ci ic B)"
      then obtain u v where uv: "w = u @ v" "u \<in> ci ic A" "v \<in> ci ic B"
        by (auto simp: conc_iff)
      then have "js_toLowerCase u \<in> A" "js_toLowerCase v \<in> B"
        using True by (simp_all add: ci_def)
      then have "js_toLowerCase u @ js_toLowerCase v \<in> conc A B"
        by (rule concI)
      then show "w \<in> ci ic (conc A B)"
        using True uv(1) by (simp add: ci_def js_toLowerCase_def)
    qed
  qed
qed

lemma ci_lpow: "ci ic (lpow A n) = lpow (ci ic A) n"
  by (induction n) (simp_all add: ci_conc)

lemma denI:
  "parse_terms f = Some ts \<Longrightarrow> lang ic (cat ts) = ci ic L \<Longrightarrow> den ic f L"
  by (simp add: den_def flang_def)

lemma denD:
  "den ic f L \<Longrightarrow> \<exists>ts. parse_terms f = Some ts \<and> lang ic (cat ts) = ci ic L"
  by (auto simp: den_def flang_def)

lemma den_flang: "den ic f L \<Longrightarrow> flang ic f = ci ic L"
  by (simp add: den_def)

lemma den_Nil [simp]: "den ic [] {[]}"
  by (simp add: den_def flang_def)

lemma den_append:
  assumes "den ic f A" "den ic g B"
  shows "den ic (f @ g) (conc A B)"
proof -
  from denD [OF assms(1)] obtain ts where ts: "parse_terms f = Some ts" "lang ic (cat ts) = ci ic A"
    by blast
  from denD [OF assms(2)] obtain us where us: "parse_terms g = Some us" "lang ic (cat us) = ci ic B"
    by blast
  show ?thesis
    by (rule denI [OF parse_terms_append [OF ts(1) us(1)]])
       (simp add: lang_cat_append ts us ci_conc)
qed

subsection \<open>Case folding of code units\<close>

lemma of_char_less_256: "(of_char c :: nat) < 256"
  by (metis of_char_mod_256 mod_less_divisor zero_less_numeral)

definition canon_code :: "nat \<Rightarrow> nat" where
  "canon_code n = (if (97 \<le> n \<and> n \<le> 122) \<or> (224 \<le> n \<and> n \<le> 254 \<and> n \<noteq> 247) then n - 32 else n)"

definition lower_code :: "nat \<Rightarrow> nat" where
  "lower_code n = (if (65 \<le> n \<and> n \<le> 90) \<or> (192 \<le> n \<and> n \<le> 222 \<and> n \<noteq> 215) then n + 32 else n)"

lemma char_of_inj_256:
  "i < 256 \<Longrightarrow> j < 256 \<Longrightarrow> (char_of i :: char) = char_of j \<longleftrightarrow> i = (j :: nat)"
  by (metis of_char_of mod_less)

lemma lower_canon_code: "lower_code (canon_code n) = lower_code n"
  by (auto simp: canon_code_def lower_code_def)

lemma canon_lower_code_eq: "canon_code (lower_code n) = canon_code n"
  by (auto simp: canon_code_def lower_code_def)

lemma canon_lower_code:
  "canon_code m = canon_code n \<longleftrightarrow> lower_code m = lower_code n"
  by (metis lower_canon_code canon_lower_code_eq)

lemma canon_code_less: "n < 256 \<Longrightarrow> canon_code n < 256"
  by (auto simp: canon_code_def)

lemma lower_code_less: "n < 256 \<Longrightarrow> lower_code n < 256"
  by (auto simp: lower_code_def)

lemma canonicalize_code: "canonicalize c = char_of (canon_code (of_char c))"
  by (simp add: canonicalize_def canon_code_def charCode_def Let_def)

lemma js_lower_char_code: "js_lower_char c = char_of (lower_code (of_char c))"
  by (simp add: js_lower_char_def lower_code_def Let_def)

lemma canonicalize_lower_iff:
  "canonicalize a = canonicalize x \<longleftrightarrow> js_lower_char a = js_lower_char x"
proof -
  have lt: "(of_char a :: nat) < 256" "(of_char x :: nat) < 256"
    by (simp_all add: of_char_less_256)
  show ?thesis
    unfolding canonicalize_code js_lower_char_code
    by (simp only: char_of_inj_256 [OF canon_code_less canon_code_less, OF lt]
          char_of_inj_256 [OF lower_code_less lower_code_less, OF lt] canon_lower_code)
qed

lemma char_eq_lower:
  "js_lower_char c = c \<Longrightarrow> char_eq ic c x \<longleftrightarrow> (if ic then js_lower_char x = c else x = c)"
  by (auto simp: char_eq_def canonicalize_lower_iff)

lemma lang_Chr_lower:
  assumes "js_lower_char c = c"
  shows "lang ic (Chr c) = ci ic {[c]}"
proof (cases ic)
  case True
  have "{[x] |x. js_lower_char x = c} = {w. map js_lower_char w = [c]}"
    by (auto simp: map_eq_Cons_conv)
  with True assms show ?thesis
    by (simp add: char_eq_lower ci_def js_toLowerCase_def)
next
  case False
  with assms show ?thesis by (auto simp: char_eq_lower ci_def)
qed

subsection \<open>Literal text\<close>

definition lit_char :: "char \<Rightarrow> bool" where
  "lit_char c = (\<not> syntax_char c \<and> js_lower_char c = c)"

lemma next_token_plain:
  "\<not> syntax_char c \<Longrightarrow> next_token (c # cs) = Some (TChar c, cs)"
  by (auto simp: next_token_def syntax_char_def)

lemma tokenize_single: "next_token [c] = Some (t, []) \<Longrightarrow> tokenize [c] = Some [t]"
  by (subst tokenize.simps) simp

lemma parse_terms_plain: "\<not> syntax_char c \<Longrightarrow> parse_terms [c] = Some [Chr c]"
  by (rule parse_termsI [OF tokenize_single [OF next_token_plain]])
     (simp_all add: push_term_def)

lemma den_char: "lit_char c \<Longrightarrow> den ic [c] {[c]}"
  unfolding lit_char_def
  by (rule denI [OF parse_terms_plain]) (simp_all add: lang_Chr_lower del: lang.simps)

lemma den_literal: "list_all lit_char s \<Longrightarrow> den ic s {s}"
proof (induction s)
  case Nil
  show ?case by simp
next
  case (Cons c s)
  then have "den ic ([c] @ s) (conc {[c]} {s})"
    by (intro den_append den_char) simp_all
  then show ?case by (simp add: conc_singleton)
qed

lemma den_escaped_dot: "den ic (BACKSLASH # ''.'') {''.''}"
proof (rule denI)
  have "next_token (BACKSLASH # ''.'') = Some (TChar CHR ''.'', [])"
    by (simp add: next_token_def syntax_char_def)
  then have "tokenize (BACKSLASH # ''.'') = Some [TChar CHR ''.'']"
    by (subst tokenize.simps) simp
  then show "parse_terms (BACKSLASH # ''.'') = Some [Chr CHR ''.'']"
    by (rule parse_termsI) (simp add: push_term_def)
  have "js_lower_char CHR ''.'' = CHR ''.''"
    by (simp add: js_lower_char_def)
  then show "lang ic (cat [Chr CHR ''.'']) = ci ic {''.''}"
    by (simp add: lang_Chr_lower del: lang.simps)
qed

lemma den_never: "den ic ''(?!)'' {}"
proof (rule denI)
  have "next_token ''(?!)'' = Some (TNever, [])"
    by (simp add: next_token_def BACKSLASH_def)
  then have "tokenize ''(?!)'' = Some [TNever]"
    by (subst tokenize.simps) simp
  then show "parse_terms ''(?!)'' = Some [Never]"
    by (rule parse_termsI) (simp add: push_term_def)
  show "lang ic (cat [Never]) = ci ic {}"
    by simp
qed

subsection \<open>Groups of alternatives\<close>

lemma tokenize_bar: "tokenize (CHR ''|'' # s) = map_option ((#) TBar) (tokenize s)"
  by (subst tokenize.simps) (simp add: next_token_def BACKSLASH_def)

lemma tokenize_open: "tokenize (''(?:'' @ s) = map_option ((#) TOpen) (tokenize s)"
  by (subst tokenize.simps) (simp add: next_token_def BACKSLASH_def)

lemma tokenize_close: "tokenize '')'' = Some [TClose]"
  by (subst tokenize.simps) (simp add: next_token_def BACKSLASH_def)

lemma tokenize_caret: "tokenize (CHR ''^'' # s) = map_option ((#) TCaret) (tokenize s)"
  by (subst tokenize.simps) (simp add: next_token_def BACKSLASH_def)

lemma tokenize_dollar: "tokenize ''$'' = Some [TDollar]"
  by (subst tokenize.simps) (simp add: next_token_def BACKSLASH_def)

lemma run_alternatives:
  assumes "list_all2 (\<lambda>p ts. parse_terms p = Some ts) ps tss" "ps \<noteq> []"
  shows "\<exists>toks. tokenize (join ''|'' ps) = Some toks
     \<and> (\<forall>alts below. run toks ((alts, []) # below) = Some ((alts @ butlast tss, last tss) # below))"
  using assms
proof (induction ps tss rule: list_all2_induct)
  case Nil
  then show ?case by simp
next
  case (Cons p ps ts tss)
  from parse_termsD [OF Cons.hyps(1)] obtain tp where tp: "tokenize p = Some tp"
    and rp: "\<And>alts cur below. run tp ((alts, cur) # below) = Some ((alts, cur @ ts) # below)"
    by blast
  show ?case
  proof (cases "ps = []")
    case True
    with Cons.hyps(2) have "tss = []" by simp
    with True tp rp show ?thesis by simp
  next
    case False
    with Cons.IH obtain toks where toks: "tokenize (join ''|'' ps) = Some toks"
      and r: "\<And>alts below. run toks ((alts, []) # below) = Some ((alts @ butlast tss, last tss) # below)"
      by blast
    from False Cons.hyps(2) have tss: "tss \<noteq> []" by auto
    have j: "join ''|'' (p # ps) = p @ CHR ''|'' # join ''|'' ps"
      using False by (simp add: join_Cons)
    have "tokenize (join ''|'' (p # ps)) = Some (tp @ TBar # toks)"
      unfolding j using tokenize_append [OF tp] by (simp add: tokenize_bar toks)
    moreover have "run (tp @ TBar # toks) ((alts, []) # below)
        = Some ((alts @ butlast (ts # tss), last (ts # tss)) # below)" for alts below
      using tss by (simp add: run_append rp r)
    ultimately show ?thesis by blast
  qed
qed

lemma parse_terms_group:
  assumes "list_all2 (\<lambda>p ts. parse_terms p = Some ts) ps tss" "ps \<noteq> []"
  shows "parse_terms (''(?:'' @ join ''|'' ps @ '')'') = Some [alt tss]"
proof -
  from run_alternatives [OF assms] obtain toks where toks: "tokenize (join ''|'' ps) = Some toks"
    and r: "\<And>alts below. run toks ((alts, []) # below) = Some ((alts @ butlast tss, last tss) # below)"
    by blast
  from assms have tss: "tss \<noteq> []" by auto
  have "tokenize (join ''|'' ps @ '')'') = Some (toks @ [TClose])"
    using tokenize_append [OF toks, of "'')''"] by (simp add: tokenize_close)
  then have "tokenize (''(?:'' @ join ''|'' ps @ '')'') = Some (TOpen # toks @ [TClose])"
    by (simp only: tokenize_open) simp
  moreover have "run (TOpen # toks @ [TClose]) [([], [])] = Some [([], [alt tss])]"
    using tss by (simp add: run_append r)
  ultimately show ?thesis by (rule parse_termsI)
qed

definition ok :: "string \<Rightarrow> bool" where
  "ok f = (parse_terms f \<noteq> None)"

lemma den_ok: "den ic f L \<Longrightarrow> ok f"
  by (simp add: den_def ok_def)

lemma den_iff: "den ic f L \<longleftrightarrow> ok f \<and> flang ic f = ci ic L"
  by (simp add: den_def ok_def)

lemma ok_append: "ok f \<Longrightarrow> ok g \<Longrightarrow> ok (f @ g)"
  unfolding ok_def using parse_terms_append by fastforce

lemma flang_append: "ok f \<Longrightarrow> ok g \<Longrightarrow> flang ic (f @ g) = conc (flang ic f) (flang ic g)"
proof -
  assume "ok f" "ok g"
  then obtain ts us where ts: "parse_terms f = Some ts" and us: "parse_terms g = Some us"
    by (auto simp: ok_def)
  show ?thesis
    by (simp add: flang_def parse_terms_append [OF ts us] ts us lang_cat_append)
qed

lemma group_flang:
  assumes "\<forall>p \<in> set ps. ok p" "ps \<noteq> []"
  shows "ok (''(?:'' @ join ''|'' ps @ '')'')"
    and "flang ic (''(?:'' @ join ''|'' ps @ '')'') = (\<Union>p \<in> set ps. flang ic p)"
proof -
  have "\<forall>p \<in> set ps. \<exists>ts. parse_terms p = Some ts"
    using assms(1) by (auto simp: ok_def)
  then obtain g where g: "\<forall>p \<in> set ps. parse_terms p = Some (g p)"
    by (rule bchoice [THEN exE])
  have "list_all2 (\<lambda>p ts. parse_terms p = Some ts) ps (map g ps)"
    using g by (simp add: list.rel_map list_all2_same)
  then have p: "parse_terms (''(?:'' @ join ''|'' ps @ '')'') = Some [alt (map g ps)]"
    using assms(2) by (rule parse_terms_group)
  then show "ok (''(?:'' @ join ''|'' ps @ '')'')"
    by (simp add: ok_def)
  have "lang ic (cat [alt (map g ps)]) = (\<Union>p \<in> set ps. flang ic p)"
    using g by (simp add: lang_alt flang_def)
  then show "flang ic (''(?:'' @ join ''|'' ps @ '')'') = (\<Union>p \<in> set ps. flang ic p)"
    using p by (simp add: flang_def)
qed

lemma orPattern_flang:
  assumes "\<forall>p \<in> set parts. ok p"
  shows "ok (orPattern parts)"
    and "flang ic (orPattern parts) = (\<Union>p \<in> set parts. flang ic p)"
proof -
  let ?u = "uniquePatterns parts"
  have all: "\<forall>p \<in> set ?u. ok p"
    using assms by simp
  have un: "(\<Union>p \<in> set parts. flang ic p) = (\<Union>p \<in> set ?u. flang ic p)"
    by simp
  consider "?u = []" | x where "?u = [x]" | "length ?u \<ge> 2"
    by (cases ?u; cases "tl ?u") auto
  then have "ok (orPattern parts) \<and> flang ic (orPattern parts) = (\<Union>p \<in> set ?u. flang ic p)"
  proof cases
    case 1
    then show ?thesis
      using den_never [of ic] by (simp add: orPattern_def den_iff)
  next
    case 2
    then have "x \<in> set parts" using set_uniquePatterns [of parts] by auto
    with assms have "ok x" by blast
    then show ?thesis
      using 2 by (simp add: orPattern_def)
  next
    case 3
    then have ne: "?u \<noteq> []" by (cases parts) auto
    have "orPattern parts = ''(?:'' @ join ''|'' ?u @ '')''"
      using 3 ne by (auto simp: orPattern_def Let_def)
    then show ?thesis
      using group_flang(1) [OF all ne] group_flang(2) [OF all ne, of ic] by simp
  qed
  then show "ok (orPattern parts)"
    and "flang ic (orPattern parts) = (\<Union>p \<in> set parts. flang ic p)"
    unfolding un by simp_all
qed

subsection \<open>The anchored pattern\<close>

lemma parse_pattern_anchored:
  assumes "ok f"
  shows "\<exists>r. parse_pattern (''^(?:'' @ f @ '')$'') = Some r \<and> lang ic r = flang ic f"
proof -
  from assms obtain ts where ts: "parse_terms f = Some ts"
    by (auto simp: ok_def)
  have "list_all2 (\<lambda>p ts. parse_terms p = Some ts) [f] [ts]"
    using ts by simp
  then have "parse_terms (''(?:'' @ join ''|'' [f] @ '')'') = Some [alt [ts]]"
    by (rule parse_terms_group) simp
  then have g: "parse_terms (''(?:'' @ f @ '')'') = Some [alt [ts]]"
    by simp
  then obtain toks where toks: "tokenize (''(?:'' @ f @ '')'') = Some toks"
    and r: "run toks [([], [])] = Some [([], [alt [ts]])]"
    by (auto simp: parse_terms_def split: option.splits list.splits prod.splits)
  have "tokenize ((''(?:'' @ f @ '')'') @ ''$'') = Some (toks @ [TDollar])"
    using tokenize_append [OF toks, of "''$''"] by (simp add: tokenize_dollar)
  then have "tokenize (''^(?:'' @ f @ '')$'') = Some (TCaret # toks @ [TDollar])"
    by (simp add: tokenize_caret)
  then have "parse_pattern (''^(?:'' @ f @ '')$'') = Some (alt [[alt [ts]]])"
    by (simp add: parse_pattern_def parse_tokens_def r)
  moreover have "lang ic (alt [[alt [ts]]]) = flang ic f"
    by (simp add: lang_alt flang_def ts)
  ultimately show ?thesis by blast
qed

text \<open>The words that a set of patterns matches: the union over its members.\<close>

definition set_lang :: "bool \<Rightarrow> string list \<Rightarrow> string set" where
  "set_lang ic patterns = (\<Union>p \<in> set patterns. flang ic p)"

lemma buildRegex_flang:
  assumes "\<forall>p \<in> set patterns. ok p" "flags = (if ic then ''i'' else [])"
  shows "\<exists>re. buildRegex patterns flags = Inr re
     \<and> (\<forall>w. RegExp_test re w \<longleftrightarrow> w \<in> set_lang ic patterns)"
proof -
  define src where "src = ''^(?:'' @ orPattern patterns @ '')$''"
  from parse_pattern_anchored [OF orPattern_flang(1) [OF assms(1)], of ic]
  obtain r where r: "parse_pattern src = Some r"
    and l: "lang ic r = set_lang ic patterns"
    unfolding src_def set_lang_def orPattern_flang(2) [OF assms(1)] by blast
  let ?re = "\<lparr>source = src, ignoreCase = ic\<rparr>"
  have "buildRegex patterns flags = Inr ?re"
    unfolding buildRegex_def src_def [symmetric]
    using assms(2) r by (auto simp: new_RegExp_def)
  moreover have "RegExp_test ?re w \<longleftrightarrow> w \<in> set_lang ic patterns" for w
    by (simp add: RegExp_test_def r rx_matches_lang l)
  ultimately show ?thesis by blast
qed

text \<open>A list of patterns whose union is a given set of words.\<close>

definition covers :: "bool \<Rightarrow> string list \<Rightarrow> string set \<Rightarrow> bool" where
  "covers ic patterns L = ((\<forall>p \<in> set patterns. ok p) \<and> set_lang ic patterns = ci ic L)"

lemma covers_single: "den ic p L \<Longrightarrow> covers ic [p] L"
  by (simp add: covers_def den_iff set_lang_def)

lemma covers_Nil [simp]: "covers ic [] {}"
  by (simp add: covers_def set_lang_def)

lemma covers_append:
  "covers ic ps A \<Longrightarrow> covers ic qs B \<Longrightarrow> covers ic (ps @ qs) (A \<union> B)"
  by (auto simp: covers_def set_lang_def ci_Un)

lemma covers_unique [simp]: "covers ic (uniquePatterns ps) L = covers ic ps L"
  by (simp add: covers_def set_lang_def)

lemma covers_orPattern: "covers ic ps L \<Longrightarrow> den ic (orPattern ps) L"
  using orPattern_flang(1) [of ps] orPattern_flang(2) [of ps ic]
  by (simp add: covers_def den_iff set_lang_def)

lemma covers_map_literal:
  assumes "\<forall>x \<in> set xs. den ic (f x) {g x}"
  shows "covers ic (map f xs) (g ` set xs)"
proof -
  have "set_lang ic (map f xs) = (\<Union>x \<in> set xs. ci ic {g x})"
    using assms by (simp add: set_lang_def den_iff)
  also have "\<dots> = ci ic (\<Union>x \<in> set xs. {g x})"
    by (simp add: ci_UN)
  also have "(\<Union>x \<in> set xs. {g x}) = g ` set xs"
    by auto
  finally show ?thesis
    using assms by (auto simp: covers_def den_iff)
qed

section \<open>Decimal and hexadecimal digits\<close>

lemma less_10_cases:
  "d < 10 \<Longrightarrow> d = 0 \<or> d = 1 \<or> d = 2 \<or> d = 3 \<or> d = 4 \<or> d = 5 \<or> d = 6 \<or> d = 7 \<or> d = 8 \<or> d = (9::nat)"
  by arith

lemma less_16_cases:
  "d < 16 \<Longrightarrow> d = 0 \<or> d = 1 \<or> d = 2 \<or> d = 3 \<or> d = 4 \<or> d = 5 \<or> d = 6 \<or> d = 7 \<or> d = 8 \<or> d = 9
     \<or> d = 10 \<or> d = 11 \<or> d = 12 \<or> d = 13 \<or> d = 14 \<or> d = (15::nat)"
  by arith

lemma charCode_char_of: "n < 256 \<Longrightarrow> charCode (char_of n) = n"
  by (simp add: charCode_def)

lemma charCode_inj: "charCode a = charCode b \<longleftrightarrow> a = b"
  by (simp add: charCode_def)

lemma char_of_charCode [simp]: "char_of (charCode c) = c"
  by (simp add: charCode_def)

lemma charCode_less: "charCode c < 256"
  by (simp add: charCode_def of_char_less_256)

lemma charCode_digit_char: "d < 10 \<Longrightarrow> charCode (digit_char d) = 48 + d"
  by (simp add: digit_char_def charCode_char_of)

lemma digit_char_inj: "a < 10 \<Longrightarrow> b < 10 \<Longrightarrow> digit_char a = digit_char b \<longleftrightarrow> a = b"
  using charCode_digit_char [of a] charCode_digit_char [of b] by (metis add_left_cancel)

lemma is_digit_iff: "is_digit c \<longleftrightarrow> (\<exists>d < 10. c = digit_char d)"
proof
  assume "is_digit c"
  then have r: "48 \<le> charCode c" "charCode c \<le> 57"
    by (simp_all add: is_digit_def charCode_def)
  then have "c = digit_char (charCode c - 48)"
    by (simp add: digit_char_def)
  with r show "\<exists>d < 10. c = digit_char d"
    by (intro exI [of _ "charCode c - 48"]) simp
next
  assume "\<exists>d < 10. c = digit_char d"
  then show "is_digit c"
    by (auto simp: is_digit_def charCode_digit_char) (simp_all add: charCode_def)
qed

lemma is_digit_digit_char [simp]: "d < 10 \<Longrightarrow> is_digit (digit_char d)"
  by (auto simp: is_digit_iff)

lemma digit_value_digit_char [simp]: "d < 10 \<Longrightarrow> digit_value (digit_char d) = d"
  by (simp add: digit_value_def charCode_digit_char)

lemma js_lower_char_fixed: "lower_code (charCode c) = charCode c \<Longrightarrow> js_lower_char c = c"
  by (simp add: js_lower_char_code charCode_def)

lemma syntax_char_codes:
  "syntax_char c \<longleftrightarrow> charCode c \<in> {94, 36, 46, 42, 43, 63, 40, 41, 91, 93, 123, 125, 124, 47, 92}"
proof -
  have "c = char_of (charCode c)" by simp
  have *: "c = d \<longleftrightarrow> charCode c = charCode d" for d
    by (simp add: charCode_inj)
  show ?thesis
    unfolding syntax_char_def BACKSLASH_def
    by (simp add: * charCode_def)
qed

lemma lit_char_digit [simp]: "is_digit c \<Longrightarrow> lit_char c"
  unfolding lit_char_def syntax_char_codes is_digit_def
  by (auto intro!: js_lower_char_fixed simp: lower_code_def charCode_def)

lemma lit_char_lower_hex [simp]: "is_lower_hex c \<Longrightarrow> lit_char c"
  unfolding lit_char_def syntax_char_codes is_lower_hex_def is_digit_def
  by (auto intro!: js_lower_char_fixed simp: lower_code_def charCode_def)

lemma lit_char_colon [simp]: "lit_char CHR '':''"
  by (simp add: lit_char_def syntax_char_def js_lower_char_def BACKSLASH_def)

subsection \<open>Decimal numerals\<close>

lemma String_of_nat_digit: "n < 10 \<Longrightarrow> String_of_nat n = [digit_char n]"
  by (simp add: String_of_nat.simps)

lemma String_of_nat_step:
  "1 \<le> a \<Longrightarrow> d < 10 \<Longrightarrow> String_of_nat (10 * a + d) = String_of_nat a @ [digit_char d]"
  by (subst String_of_nat.simps) simp

lemma String_of_nat_ge_10:
  "10 \<le> n \<Longrightarrow> String_of_nat n = String_of_nat (n div 10) @ [digit_char (n mod 10)]"
  by (subst String_of_nat.simps) simp

lemma String_of_nat_digits: "list_all is_digit (String_of_nat n)"
proof (induction n rule: less_induct)
  case (less n)
  show ?case
  proof (cases "n < 10")
    case True
    then show ?thesis by (simp add: String_of_nat_digit)
  next
    case False
    then have "n div 10 < n" by simp
    with less False show ?thesis by (simp add: String_of_nat_ge_10)
  qed
qed

lemma String_of_nat_not_Nil [simp]: "String_of_nat n \<noteq> []"
  by (subst String_of_nat.simps) simp

lemma String_of_nat_lit: "list_all lit_char (String_of_nat n)"
  using String_of_nat_digits [of n] by (simp add: list_all_iff)

lemma String_of_nat_length_ge_2: "10 \<le> n \<Longrightarrow> 2 \<le> length (String_of_nat n)"
proof -
  assume "10 \<le> n"
  then have "length (String_of_nat n) = Suc (length (String_of_nat (n div 10)))"
    by (simp add: String_of_nat_ge_10)
  moreover have "1 \<le> length (String_of_nat (n div 10))"
    by (cases "String_of_nat (n div 10)") simp_all
  ultimately show ?thesis by linarith
qed

lemma String_of_nat_inj: "String_of_nat m = String_of_nat n \<Longrightarrow> m = n"
proof (induction m arbitrary: n rule: less_induct)
  case (less m)
  show ?case
  proof (cases "m < 10")
    case m: True
    show ?thesis
    proof (cases "n < 10")
      case True
      with m less.prems show ?thesis
        by (simp add: String_of_nat_digit digit_char_inj)
    next
      case False
      then have "2 \<le> length (String_of_nat n)"
        by (simp add: String_of_nat_length_ge_2)
      moreover have "length (String_of_nat m) = 1"
        using m by (simp add: String_of_nat_digit)
      ultimately show ?thesis
        unfolding less.prems by linarith
    qed
  next
    case m: False
    show ?thesis
    proof (cases "n < 10")
      case True
      from m have "2 \<le> length (String_of_nat m)"
        by (simp add: String_of_nat_length_ge_2)
      moreover have "length (String_of_nat n) = 1"
        using True by (simp add: String_of_nat_digit)
      ultimately show ?thesis
        unfolding less.prems by linarith
    next
      case False
      with m less.prems have e: "String_of_nat (m div 10) = String_of_nat (n div 10)"
        and d: "digit_char (m mod 10) = digit_char (n mod 10)"
        by (simp_all add: String_of_nat_ge_10)
      from m have "m div 10 < m" by simp
      then have "m div 10 = n div 10" using less.IH e by blast
      moreover have "m mod 10 = n mod 10"
        using d by (simp add: digit_char_inj)
      ultimately show ?thesis
        by (metis div_mult_mod_eq)
    qed
  qed
qed

lemma Number_parseInt10_snoc:
  "Number_parseInt10 (s @ [c]) = Number_parseInt10 s * 10 + digit_value c"
  by (simp add: Number_parseInt10_def)

lemma Number_parseInt10_String_of_nat [simp]: "Number_parseInt10 (String_of_nat n) = n"
proof (induction n rule: less_induct)
  case (less n)
  show ?case
  proof (cases "n < 10")
    case True
    then show ?thesis
      by (simp add: String_of_nat_digit Number_parseInt10_def)
  next
    case False
    then have "n div 10 < n" by simp
    with less False show ?thesis
      by (simp add: String_of_nat_ge_10 Number_parseInt10_snoc)
  qed
qed

lemma den_String_of_nat: "den ic (String_of_nat n) {String_of_nat n}"
  by (rule den_literal) (rule String_of_nat_lit)

subsection \<open>Hexadecimal digits\<close>

definition hex_char :: "nat \<Rightarrow> char" where
  "hex_char v = HEX_DIGITS ! v"

lemma charCode_hex_char:
  "v < 16 \<Longrightarrow> charCode (hex_char v) = (if v < 10 then 48 + v else 87 + v)"
  by (drule less_16_cases) (auto simp: hex_char_def HEX_DIGITS_def charCode_def)

lemma hex_char_inj: "a < 16 \<Longrightarrow> b < 16 \<Longrightarrow> hex_char a = hex_char b \<longleftrightarrow> a = b"
proof -
  assume a: "a < 16" and b: "b < 16"
  have "charCode (hex_char a) = charCode (hex_char b) \<longleftrightarrow> a = b"
    using a b by (auto simp: charCode_hex_char split: if_splits)
  then show ?thesis by (simp add: charCode_inj)
qed

lemma is_lower_hex_code:
  "is_lower_hex c \<longleftrightarrow> (48 \<le> charCode c \<and> charCode c \<le> 57) \<or> (97 \<le> charCode c \<and> charCode c \<le> 102)"
  by (simp add: is_lower_hex_def is_digit_def) (simp add: charCode_def)

lemma is_lower_hex_iff: "is_lower_hex c \<longleftrightarrow> (\<exists>v < 16. c = hex_char v)"
proof
  assume h: "is_lower_hex c"
  define v where "v = (if charCode c \<le> 57 then charCode c - 48 else charCode c - 87)"
  have v: "v < 16" and cv: "charCode c = (if v < 10 then 48 + v else 87 + v)"
    using h by (auto simp: is_lower_hex_code v_def)
  then have "charCode c = charCode (hex_char v)"
    by (simp add: charCode_hex_char)
  then have "c = hex_char v"
    by (simp add: charCode_inj)
  with v show "\<exists>v < 16. c = hex_char v" by blast
next
  assume "\<exists>v < 16. c = hex_char v"
  then show "is_lower_hex c"
    by (auto simp: is_lower_hex_code charCode_hex_char split: if_splits)
qed

lemma is_lower_hex_hex_char [simp]: "v < 16 \<Longrightarrow> is_lower_hex (hex_char v)"
  by (auto simp: is_lower_hex_iff)

lemma index_of_hex_char: "v < 16 \<Longrightarrow> index_of (hex_char v) HEX_DIGITS = Some v"
  by (drule less_16_cases) (auto simp: hex_char_def HEX_DIGITS_def)

lemma hexValue_hex_char [simp]: "v < 16 \<Longrightarrow> hexValue (hex_char v) = Inr v"
  by (simp add: hexValue_def index_of_hex_char)

lemma hex_value_hex_char [simp]: "v < 16 \<Longrightarrow> hex_value (hex_char v) = v"
  by (simp add: hex_value_def index_of_hex_char)

lemma hex_digit_at_hex_char: "v < 16 \<Longrightarrow> hex_digit_at v = [hex_char v]"
  by (simp add: hex_digit_at_def hex_char_def HEX_DIGITS_def)

section \<open>Character classes and quantifiers\<close>

subsection \<open>What a class matches\<close>

lemma class_match_False:
  "class_match False its x \<longleftrightarrow>
     (\<exists>(lo, hi) \<in> set its. charCode lo \<le> charCode x \<and> charCode x \<le> charCode hi)"
proof -
  have "(\<exists>n \<in> set [charCode lo..<Suc (charCode hi)]. char_of n = x)
      \<longleftrightarrow> charCode lo \<le> charCode x \<and> charCode x \<le> charCode hi" for lo hi
  proof
    assume "\<exists>n \<in> set [charCode lo..<Suc (charCode hi)]. char_of n = x"
    then obtain n where n: "charCode lo \<le> n" "n \<le> charCode hi" "char_of n = x"
      by auto
    then have "n < 256" using charCode_less [of hi] by simp
    then have "charCode x = n" using n(3) charCode_char_of by blast
    with n show "charCode lo \<le> charCode x \<and> charCode x \<le> charCode hi" by simp
  next
    assume "charCode lo \<le> charCode x \<and> charCode x \<le> charCode hi"
    then show "\<exists>n \<in> set [charCode lo..<Suc (charCode hi)]. char_of n = x"
      by (intro bexI [of _ "charCode x"]) auto
  qed
  then show ?thesis
    by (simp add: class_match_def list_ex_iff char_eq_def case_prod_unfold)
qed

definition lower_range :: "char \<times> char \<Rightarrow> bool" where
  "lower_range r = (\<forall>n. charCode (fst r) \<le> n \<and> n \<le> charCode (snd r) \<longrightarrow> lower_code n = n)"

lemma class_match_True:
  assumes "\<forall>r \<in> set its. lower_range r"
  shows "class_match True its x \<longleftrightarrow> class_match False its (js_lower_char x)"
proof -
  have key: "char_eq True (char_of n) x \<longleftrightarrow> char_eq False (char_of n) (js_lower_char x)"
    if "r \<in> set its" "n \<in> set [charCode (fst r)..<Suc (charCode (snd r))]" for r n
  proof -
    from that have n: "charCode (fst r) \<le> n" "n \<le> charCode (snd r)" by auto
    then have lt: "n < 256" using charCode_less [of "snd r"] by simp
    have "lower_code n = n"
      using assms that(1) n by (simp add: lower_range_def)
    then have "js_lower_char (char_of n) = char_of n"
      using lt by (simp add: js_lower_char_code)
    then show ?thesis
      by (simp add: char_eq_def canonicalize_lower_iff)
  qed
  have "(\<exists>n \<in> set [charCode (fst r)..<Suc (charCode (snd r))]. char_eq True (char_of n) x)
      \<longleftrightarrow> (\<exists>n \<in> set [charCode (fst r)..<Suc (charCode (snd r))].
            char_eq False (char_of n) (js_lower_char x))"
    if "r \<in> set its" for r
    by (rule bex_cong [OF refl]) (rule key [OF that])
  then show ?thesis
    unfolding class_match_def list_ex_iff case_prod_unfold
    by (rule bex_cong [OF refl])
qed

lemma lang_Cls:
  assumes "\<forall>r \<in> set its. lower_range r"
  shows "lang ic (Cls its) = ci ic {[x] | x. class_match False its x}"
proof (cases ic)
  case False
  then show ?thesis by (simp add: ci_def)
next
  case True
  have "{[x] | x. class_match False its (js_lower_char x)}
      = {w. map js_lower_char w \<in> {[x] | x. class_match False its x}}"
    by (auto simp: map_eq_Cons_conv)
  with True show ?thesis
    by (simp add: class_match_True [OF assms] ci_def js_toLowerCase_def)
qed

subsection \<open>Reading a class\<close>

declare class_items.simps [simp del]

definition render_item :: "char \<times> char \<Rightarrow> string" where
  "render_item r = (if fst r = snd r then [fst r] else [fst r, CHR ''-'', snd r])"

definition class_text :: "(char \<times> char) list \<Rightarrow> string" where
  "class_text its = ''['' @ concat (map render_item its) @ '']''"

definition range_ok :: "char \<times> char \<Rightarrow> bool" where
  "range_ok r = (class_atom (fst r) \<and> class_atom (snd r) \<and> charCode (fst r) \<le> charCode (snd r))"

lemma class_atom_simps:
  "class_atom c \<Longrightarrow> c \<noteq> CHR '']''" "class_atom c \<Longrightarrow> c \<noteq> CHR ''-''"
  by (auto simp: class_atom_def)

lemma class_items_single:
  assumes "class_atom a" "rest \<noteq> []" "hd rest \<noteq> CHR ''-''"
  shows "class_items (a # rest) = map_option (\<lambda>(its, r). ((a, a) # its, r)) (class_items rest)"
proof -
  from assms(2) obtain m rest1 where rest: "rest = m # rest1" by (cases rest) auto
  with assms(3) have m: "m \<noteq> CHR ''-''" by simp
  show ?thesis
    using assms(1) m class_atom_simps(1) [OF assms(1)] unfolding rest
    by (cases rest1) (simp_all add: class_items.simps)
qed

lemma class_items_range:
  assumes "class_atom a" "class_atom b" "charCode a \<le> charCode b"
  shows "class_items (a # CHR ''-'' # b # rest)
     = map_option (\<lambda>(its, r). ((a, b) # its, r)) (class_items rest)"
  using assms class_atom_simps(1) [OF assms(1)] by (simp add: class_items.simps)

lemma class_items_render:
  assumes "\<forall>r \<in> set its. range_ok r"
  shows "class_items (concat (map render_item its) @ CHR '']'' # rest) = Some (its, rest)"
  using assms
proof (induction its)
  case Nil
  show ?case by (simp add: class_items.simps)
next
  case (Cons r its)
  obtain lo hi where r: "r = (lo, hi)" by (cases r)
  from Cons.prems r have ok: "class_atom lo" "class_atom hi" "charCode lo \<le> charCode hi"
    by (simp_all add: range_ok_def)
  let ?more = "concat (map render_item its) @ CHR '']'' # rest"
  have IH: "class_items ?more = Some (its, rest)"
    using Cons by simp
  show ?case
  proof (cases "lo = hi")
    case True
    have ne: "?more \<noteq> []" by simp
    have hd: "hd ?more \<noteq> CHR ''-''"
    proof (cases its)
      case Nil
      then show ?thesis by simp
    next
      case (Cons r' its')
      then have "range_ok r'" using Cons.prems by simp
      then have "class_atom (fst r')" by (simp add: range_ok_def)
      then have "fst r' \<noteq> CHR ''-''" by (rule class_atom_simps(2))
      then show ?thesis using Cons by (auto simp: render_item_def)
    qed
    have e: "concat (map render_item (r # its)) @ CHR '']'' # rest = lo # ?more"
      using True r by (simp add: render_item_def)
    show ?thesis
      unfolding e class_items_single [OF ok(1) ne hd] IH using True r by simp
  next
    case False
    have e: "concat (map render_item (r # its)) @ CHR '']'' # rest
        = lo # CHR ''-'' # hi # ?more"
      using False r by (simp add: render_item_def)
    show ?thesis
      unfolding e class_items_range [OF ok] IH using r by simp
  qed
qed

lemma next_token_class:
  assumes "its \<noteq> []" "\<forall>r \<in> set its. range_ok r"
  shows "next_token (class_text its @ rest) = Some (TClass its, rest)"
proof -
  have "class_text its @ rest = CHR ''['' # (concat (map render_item its) @ CHR '']'' # rest)"
    by (simp add: class_text_def)
  then show ?thesis
    using class_items_render [OF assms(2), of rest] assms(1)
    by (simp add: next_token_def BACKSLASH_def)
qed

lemma parse_terms_class:
  assumes "its \<noteq> []" "\<forall>r \<in> set its. range_ok r"
  shows "parse_terms (class_text its) = Some [Cls its]"
proof -
  have "class_text its \<noteq> []" by (simp add: class_text_def)
  then have "tokenize (class_text its) = Some [TClass its]"
    using next_token_class [OF assms, of "[]"] by (subst tokenize.simps) simp
  then show ?thesis
    by (rule parse_termsI) (simp add: push_term_def)
qed

lemma den_class:
  assumes "its \<noteq> []" "\<forall>r \<in> set its. range_ok r" "\<forall>r \<in> set its. lower_range r"
  shows "den ic (class_text its) {[x] | x. class_match False its x}"
  by (rule denI [OF parse_terms_class [OF assms(1,2)]])
     (simp add: lang_Cls [OF assms(3)] del: lang.simps)

subsection \<open>Quantified terms\<close>

lemma flang_atom: "parse_terms f = Some [t] \<Longrightarrow> flang ic f = lang ic t"
  by (simp add: flang_def)

lemma parse_terms_quantify:
  assumes "parse_terms f = Some [t]" "\<not> quantified t" "tokenize q = Some [tok]"
    "\<And>st. step tok st = quantify Q st"
  shows "parse_terms (f @ q) = Some [Q t]"
proof -
  from parse_termsD [OF assms(1)] obtain tf where tf: "tokenize f = Some tf"
    and rf: "\<And>alts cur below. run tf ((alts, cur) # below) = Some ((alts, cur @ [t]) # below)"
    by blast
  have "tokenize (f @ q) = Some (tf @ [tok])"
    using tokenize_append [OF tf, of q] assms(3) by simp
  moreover have "run (tf @ [tok]) [([], [])] = Some [([], [Q t])]"
    using assms(2) by (simp add: run_append rf assms(4) quantify_def)
  ultimately show ?thesis by (rule parse_termsI)
qed

lemma tokenize_opt: "tokenize ''?'' = Some [TOpt]"
  by (subst tokenize.simps) (simp add: next_token_def BACKSLASH_def)

lemma rep_count_String_of_nat:
  "rep_count (String_of_nat n @ CHR ''}'' # rest) = Some (n, rest)"
proof -
  have d: "\<forall>c \<in> set (String_of_nat n). is_digit c"
    using String_of_nat_digits [of n] by (simp add: list_all_iff)
  have nd: "\<not> is_digit CHR ''}''"
    by (simp add: is_digit_def charCode_def)
  have "takeWhile is_digit (String_of_nat n @ CHR ''}'' # rest) = String_of_nat n"
    using d nd by (simp add: takeWhile_append2)
  moreover have "dropWhile is_digit (String_of_nat n @ CHR ''}'' # rest) = CHR ''}'' # rest"
    using d nd by (simp add: dropWhile_append2)
  ultimately show ?thesis
    by (simp add: rep_count_def Let_def)
qed

lemma tokenize_rep: "tokenize (''{'' @ String_of_nat n @ ''}'') = Some [TRep n]"
  using rep_count_String_of_nat [of n "[]"]
  by (subst tokenize.simps) (simp add: next_token_def BACKSLASH_def)

lemma parse_terms_opt:
  "parse_terms f = Some [t] \<Longrightarrow> \<not> quantified t \<Longrightarrow> parse_terms (f @ ''?'') = Some [Opt t]"
  by (rule parse_terms_quantify [OF _ _ tokenize_opt]) simp_all

lemma parse_terms_rep:
  "parse_terms f = Some [t] \<Longrightarrow> \<not> quantified t
     \<Longrightarrow> parse_terms (f @ ''{'' @ String_of_nat n @ ''}'') = Some [Rep n t]"
  by (rule parse_terms_quantify [OF _ _ tokenize_rep]) simp_all

subsection \<open>Classes of hexadecimal digits\<close>

definition Hset :: "nat \<Rightarrow> nat \<Rightarrow> string set" where
  "Hset a b = {[hex_char v] | v. a \<le> v \<and> v \<le> b}"

definition hex_its :: "nat \<Rightarrow> nat \<Rightarrow> (char \<times> char) list" where
  "hex_its a b =
     (if b \<le> 9 \<or> 10 \<le> a then [(hex_char a, hex_char b)]
      else [(hex_char a, hex_char 9), (hex_char 10, hex_char b)])"

lemma class_atom_hex_char: "v < 16 \<Longrightarrow> class_atom (hex_char v)"
  by (drule less_16_cases) (auto simp: class_atom_def hex_char_def HEX_DIGITS_def BACKSLASH_def)

lemma hex_its_range_ok:
  assumes "a \<le> b" "b \<le> 15"
  shows "\<forall>r \<in> set (hex_its a b). range_ok r"
proof -
  have atom: "class_atom (hex_char a)" "class_atom (hex_char b)"
      "class_atom (hex_char 9)" "class_atom (hex_char 10)"
    using assms by (simp_all add: class_atom_hex_char)
  consider "b \<le> 9" | "10 \<le> a" | "a \<le> 9" "10 \<le> b" by linarith
  then show ?thesis
  proof cases
    case 1
    with assms atom show ?thesis
      by (simp add: hex_its_def range_ok_def charCode_hex_char)
  next
    case 2
    with assms atom show ?thesis
      by (simp add: hex_its_def range_ok_def charCode_hex_char)
  next
    case 3
    with assms atom show ?thesis
      by (simp add: hex_its_def range_ok_def charCode_hex_char)
  qed
qed

lemma lower_rangeI:
  "charCode hi < 65 \<or> (90 < charCode lo \<and> charCode hi < 192) \<Longrightarrow> lower_range (lo, hi)"
  by (auto simp: lower_range_def lower_code_def)

lemma hex_its_lower:
  assumes "a \<le> b" "b \<le> 15"
  shows "\<forall>r \<in> set (hex_its a b). lower_range r"
proof -
  consider "b \<le> 9" | "10 \<le> a" | "a \<le> 9" "10 \<le> b" by linarith
  then show ?thesis
  proof cases
    case 1
    with assms show ?thesis
      by (simp add: hex_its_def lower_rangeI charCode_hex_char)
  next
    case 2
    with assms show ?thesis
      by (simp add: hex_its_def lower_rangeI charCode_hex_char)
  next
    case 3
    with assms show ?thesis
      by (simp add: hex_its_def lower_rangeI charCode_hex_char)
  qed
qed

lemma hex_char_code_iff:
  "v < 16 \<Longrightarrow> x = hex_char v \<longleftrightarrow> charCode x = (if v < 10 then 48 + v else 87 + v)"
  using charCode_hex_char [of v] charCode_inj [of x "hex_char v"] by simp

lemma hex_its_match:
  assumes "a \<le> b" "b \<le> 15"
  shows "{[x] | x. class_match False (hex_its a b) x} = Hset a b"
proof -
  have eq: "class_match False (hex_its a b) x \<longleftrightarrow> (\<exists>v. a \<le> v \<and> v \<le> b \<and> x = hex_char v)" for x
  proof
    assume m: "class_match False (hex_its a b) x"
    define c where "c = charCode x"
    define v where "v = (if c \<le> 57 then c - 48 else c - 87)"
    consider "b \<le> 9" | "10 \<le> a" | "a \<le> 9" "10 \<le> b" by linarith
    then have "a \<le> v \<and> v \<le> b \<and> c = (if v < 10 then 48 + v else 87 + v)"
    proof cases
      case 1
      then have "48 + a \<le> c \<and> c \<le> 48 + b"
        using m assms by (simp add: class_match_False hex_its_def charCode_hex_char c_def)
      with 1 show ?thesis by (auto simp: v_def)
    next
      case 2
      then have "87 + a \<le> c \<and> c \<le> 87 + b"
        using m assms by (simp add: class_match_False hex_its_def charCode_hex_char c_def)
      with 2 assms show ?thesis by (auto simp: v_def)
    next
      case 3
      then have "(48 + a \<le> c \<and> c \<le> 57) \<or> (97 \<le> c \<and> c \<le> 87 + b)"
        using m assms by (simp add: class_match_False hex_its_def charCode_hex_char c_def)
      then show ?thesis
      proof
        assume "48 + a \<le> c \<and> c \<le> 57"
        with 3 show ?thesis by (auto simp: v_def)
      next
        assume "97 \<le> c \<and> c \<le> 87 + b"
        with 3 assms show ?thesis by (auto simp: v_def)
      qed
    qed
    then have v: "a \<le> v" "v \<le> b" "charCode x = (if v < 10 then 48 + v else 87 + v)"
      by (simp_all add: c_def)
    then have "x = hex_char v"
      using assms by (simp add: hex_char_code_iff)
    with v show "\<exists>v. a \<le> v \<and> v \<le> b \<and> x = hex_char v" by blast
  next
    assume "\<exists>v. a \<le> v \<and> v \<le> b \<and> x = hex_char v"
    then obtain v where v: "a \<le> v" "v \<le> b" "x = hex_char v" by blast
    then have c: "charCode x = (if v < 10 then 48 + v else 87 + v)"
      using assms by (simp add: charCode_hex_char)
    consider "b \<le> 9" | "10 \<le> a" | "a \<le> 9" "10 \<le> b" by linarith
    then show "class_match False (hex_its a b) x"
    proof cases
      case 1
      with v(1,2) c assms show ?thesis
        by (simp add: class_match_False hex_its_def charCode_hex_char)
    next
      case 2
      with v(1,2) c assms show ?thesis
        by (simp add: class_match_False hex_its_def charCode_hex_char)
    next
      case 3
      with v(1,2) c assms show ?thesis
        by (simp add: class_match_False hex_its_def charCode_hex_char)
    qed
  qed
  show ?thesis unfolding Hset_def eq by blast
qed

lemma den_hex_class:
  assumes "a \<le> b" "b \<le> 15"
  shows "den ic (class_text (hex_its a b)) (Hset a b)"
proof -
  have ne: "hex_its a b \<noteq> []" by (simp add: hex_its_def)
  show ?thesis
    using den_class [OF ne hex_its_range_ok [OF assms] hex_its_lower [OF assms], of ic]
    by (simp add: hex_its_match [OF assms])
qed

lemma parse_terms_hex_class:
  assumes "a \<le> b" "b \<le> 15"
  shows "parse_terms (class_text (hex_its a b)) = Some [Cls (hex_its a b)]"
proof -
  have ne: "hex_its a b \<noteq> []" by (simp add: hex_its_def)
  show ?thesis
    by (rule parse_terms_class [OF ne hex_its_range_ok [OF assms]])
qed

lemma lang_hex_class:
  assumes "a \<le> b" "b \<le> 15"
  shows "lang ic (Cls (hex_its a b)) = ci ic (Hset a b)"
  using lang_Cls [OF hex_its_lower [OF assms], of ic] by (simp add: hex_its_match [OF assms])

lemma Hset_single: "Hset a a = {[hex_char a]}"
  by (auto simp: Hset_def)

lemma class_text_digits:
  "a < b \<Longrightarrow> b \<le> 9 \<Longrightarrow> class_text (hex_its a b) = ''['' @ [hex_char a] @ ''-'' @ [hex_char b] @ '']''"
  by (simp add: class_text_def hex_its_def render_item_def hex_char_inj)

lemma class_text_hex_any: "class_text (hex_its 0 15) = ''[0-9a-f]''"
  by (simp add: class_text_def hex_its_def render_item_def hex_char_def HEX_DIGITS_def)

lemma hexDigitLoop_cross:
  assumes "low \<le> 9" "9 < high" "high \<le> 15"
  shows "hexDigitLoop low high [] =
     Some [if low = 9 then hex_digit_at 9 else hex_digit_at low @ ''-'' @ hex_digit_at 9,
           if high = 10 then hex_digit_at 10 else hex_digit_at 10 @ ''-'' @ hex_digit_at high]"
proof -
  have 1: "hexDigitLoop low high [] = hexDigitLoop 10 high
       [if low = 9 then hex_digit_at 9 else hex_digit_at low @ ''-'' @ hex_digit_at 9]"
    using assms by (subst hexDigitLoop.simps) (auto simp: min_def)
  have 2: "hexDigitLoop 10 high ps = hexDigitLoop (high + 1) high
       (ps @ [if high = 10 then hex_digit_at 10 else hex_digit_at 10 @ ''-'' @ hex_digit_at high])" for ps
    using assms by (subst hexDigitLoop.simps) (auto simp: min_def)
  have 3: "high < c \<Longrightarrow> hexDigitLoop c high ps = Some ps" for ps c
    by (subst hexDigitLoop.simps) simp
  show ?thesis by (simp add: 1 2 3)
qed

text \<open>
  Claim C4, as the code has it. A span of hex digits from \<open>low \<le> 9\<close> to \<open>high > 9\<close>
  compiles to one bracket expression that holds two parts side by side: the decimal
  part \<open>low-9\<close> (the digit 9 alone when \<open>low = 9\<close>) and the letter part \<open>a-high\<close>
  (the letter a alone when \<open>high = 10\<close>). Digits 8 through 12 compile to \<open>[8-9a-c]\<close>.
\<close>

theorem hexDigitRange_crossing:
  assumes "low \<le> 9" "9 < high" "high \<le> 15"
  shows "hexDigitRange low high =
     Some (''['' @ (if low = 9 then ''9'' else hex_digit_at low @ ''-9'')
               @ (if high = 10 then ''a'' else ''a-'' @ hex_digit_at high) @ '']'')"
  using assms by (simp add: hexDigitRange_def hexDigitLoop_cross hex_digit_at_def HEX_DIGITS_def)

theorem hexDigitRange_crossing_witness:
  "(8::nat) \<le> 9 \<and> (9::nat) < 12 \<and> (12::nat) \<le> 15 \<and> hexDigitRange 8 12 = Some ''[8-9a-c]''"
  using hexDigitRange_crossing [of 8 12] by (simp add: hex_digit_at_def HEX_DIGITS_def)

text \<open>
  The fragment that the specification names for digits 8 through 12 is not the one
  the digit-range compiler returns.
\<close>

theorem hexDigitRange_8_12_counterexample: "hexDigitRange 8 12 \<noteq> Some ''[89a-c]''"
  by (simp add: hexDigitRange_def hexDigitLoop_cross hex_digit_at_def HEX_DIGITS_def)

lemma bit_mask_int: "bit (2 ^ n - 1 :: int) k \<longleftrightarrow> k < n"
  using bit_mask_iff [where ?'a = int, of n k] by (simp add: mask_eq_exp_minus_1)

lemma normalizeRange_masks:
  assumes "0 \<le> a" "a < 2 ^ nat bits" "0 \<le> p" "p \<le> bits"
  shows "normalizeRange a bits p =
      (a AND NOT (2 ^ nat (bits - p) - 1), (a AND NOT (2 ^ nat (bits - p) - 1)) OR (2 ^ nat (bits - p) - 1))"
proof -
  let ?h = "nat (bits - p)"
  have pm: "(if p = 0 then 0 else bigint_shl (bigint_shl 1 p - 1) (bits - p)) = push_bit ?h (2 ^ nat p - 1)"
    using assms by (auto simp: bigint_shl_def)
  have hm: "(if bits - p = 0 then 0 else bigint_shl 1 (bits - p) - 1) = 2 ^ ?h - (1::int)"
    using assms by (auto simp: bigint_shl_def)
  have abit: "bit a k \<Longrightarrow> k < nat bits" for k
    using assms(1,2) by (metis bit_take_bit_iff take_bit_int_eq_self)
  have st: "a AND push_bit ?h (2 ^ nat p - 1) = a AND NOT (2 ^ ?h - 1)"
  proof (rule bit_eqI)
    fix k
    show "bit (a AND push_bit ?h (2 ^ nat p - 1)) k = bit (a AND NOT (2 ^ ?h - 1)) k"
      using abit [of k] assms(3,4)
      by (auto simp: bit_and_iff bit_push_bit_iff bit_not_iff bit_mask_int)
  qed
  show ?thesis
    unfolding normalizeRange_def Let_def pm hm st by simp
qed

lemma and_not_mask_small:
  assumes "0 \<le> a" "a < 2 ^ n"
  shows "a AND NOT (2 ^ n - 1) = (0::int)"
proof (rule bit_eqI)
  fix k
  have "bit a k \<Longrightarrow> k < n"
    using assms by (metis bit_take_bit_iff take_bit_int_eq_self)
  then show "bit (a AND NOT (2 ^ n - 1)) k = bit (0::int) k"
    by (auto simp: bit_and_iff bit_not_iff bit_mask_int)
qed

text \<open>
  Claim C3. For an address that fits in \<open>bitWidth\<close> bits and a prefix length in
  \<open>[0, bitWidth]\<close>, \<open>normalizeRange\<close> returns \<open>start = address & ~((1 << hostBits) - 1)\<close>
  and \<open>end = start | ((1 << hostBits) - 1)\<close> with \<open>hostBits = bitWidth - prefixLength\<close>;
  a full prefix gives \<open>start = end = address\<close>, the empty prefix gives \<open>start = 0\<close> and
  \<open>end = 2^bitWidth - 1\<close>. The result is a pair: the function has no failure path.
\<close>

theorem normalizeRange_spec:
  assumes "0 \<le> a" "a < 2 ^ nat bitWidth" "0 \<le> prefixLength" "prefixLength \<le> bitWidth"
  shows "normalizeRange a bitWidth prefixLength =
           (let hostBits = nat (bitWidth - prefixLength);
                start = a AND NOT (push_bit hostBits 1 - 1)
            in (start, start OR (push_bit hostBits 1 - 1)))
       \<and> (prefixLength = bitWidth \<longrightarrow> normalizeRange a bitWidth prefixLength = (a, a))
       \<and> (prefixLength = 0 \<longrightarrow> normalizeRange a bitWidth prefixLength = (0, 2 ^ nat bitWidth - 1))"
  using assms and_not_mask_small [of a "nat bitWidth"]
  by (simp add: normalizeRange_masks Let_def)

theorem normalizeRange_spec_witness:
  "normalizeRange 0x0A000005 32 24 = (0x0A000000, 0x0A0000FF)
   \<and> normalizeRange 0x0A000005 32 32 = (0x0A000005, 0x0A000005)
   \<and> normalizeRange 0x0A000005 32 0 = (0, 0xFFFFFFFF)"
  using normalizeRange_spec [of "0x0A000005" 32 24] normalizeRange_spec [of "0x0A000005" 32 32]
    normalizeRange_spec [of "0x0A000005" 32 0]
  by (simp add: Let_def)

section \<open>Values that are not strings\<close>

text \<open>The operator \<open>typeof\<close> on the values of the model.\<close>

definition js_typeof :: "js_value \<Rightarrow> string" where
  "js_typeof v =
     (case v of
        JSString s \<Rightarrow> ''string''
      | JSNumber n \<Rightarrow> ''number''
      | JSBoolean b \<Rightarrow> ''boolean''
      | JSNull \<Rightarrow> ''object''
      | JSUndefined \<Rightarrow> ''undefined''
      | JSOther \<Rightarrow> ''object'')"

text \<open>
  Claim C10. For an input whose type is not \<open>string\<close>, \<open>cidrToRegex\<close> throws the error
  \<open>Invalid CIDR\<close>, the error of a malformed string, and nothing else happens: the
  cache of hextet patterns is the one before the call.
\<close>

theorem cidrToRegex_non_string:
  assumes "js_typeof v \<noteq> ''string''"
  shows "cidrToRegex v cache = (Inl InvalidCIDR, cache)
       \<and> cidrToRegex v cache = cidrToRegex (JSString ''not a prefix'') cache"
proof -
  have "parseCidr v = Inl InvalidCIDR"
    using assms by (cases v) (simp_all add: parseCidr_def js_typeof_def)
  moreover have "parseCidr (JSString ''not a prefix'') = Inl InvalidCIDR"
    by (simp add: parseCidr_def js_trim_def js_whitespace_def js_split_def js_startsWith_def)
  ultimately show ?thesis
    by (simp add: cidrToRegex_def)
qed

theorem cidrToRegex_non_string_witness:
  "js_typeof (JSNumber 42) \<noteq> ''string''
   \<and> cidrToRegex (JSNumber 42) Map.empty = (Inl InvalidCIDR, Map.empty)
   \<and> cidrToRegex JSNull Map.empty = (Inl InvalidCIDR, Map.empty)"
  using cidrToRegex_non_string [of "JSNumber 42" Map.empty]
    cidrToRegex_non_string [of JSNull Map.empty]
  by (simp add: js_typeof_def)

end
